theory Spec2Isabelle
  imports Main
begin

section \<open>Storage, element types and outcomes\<close>

text \<open>
  A slot of raw storage either holds a live, constructed element (\<open>Some x\<close>, the element
  having value \<open>x\<close>) or is uninitialized memory (\<open>None\<close>).
\<close>

type_synonym 'a slot = "'a option"

text \<open>
  Modelled from the spec: \<open>RawMemory<T>\<close> (rawmemory.h is included by vector.h but is not
  among the sources). The spec describes it as a block of uninitialized storage for a fixed
  number of element slots that never constructs or destroys an element, with a capacity, an
  ownership swap and a move that leaves the source with capacity 0. It is modelled as the
  list of its slots; its capacity is the length of the list.
\<close>

type_synonym 'a RawMemory = "'a slot list"

text \<open>
  The class \<open>Vector<T>\<close>: the members \<open>data_\<close> and \<open>size_\<close> (a trailing underscore is not
  a legal name here, hence the prefix). Sizes and indices are \<open>size_t\<close> in the source; the
  only arithmetic on them that could wrap is \<open>size_ * 2\<close>, and a sequence of \<open>2^63\<close> live
  elements does not fit an address space, so they are natural numbers here.
  An iterator is a pointer into the storage: it is modelled by its offset from \<open>begin()\<close>.
\<close>

record 'a Vector =
  m_data :: "'a RawMemory"
  m_size :: nat

text \<open>
  What the template parameter \<open>T\<close> contributes: the two traits that
  \<open>ShiftDataToNewMemory\<close> asks for, the value a moved-from object is left with, and the
  value of a value-initialized object.
\<close>

record 'a elem_type =
  nothrow_move_constructible :: bool
  copy_constructible :: bool
  moved_from :: "'a \<Rightarrow> 'a"
  value_initialized :: 'a

text \<open>
  Exceptions. Every step that may throw (an allocation of a positive number of slots, a
  constructor call, an assignment) consumes the head of a fault schedule: \<open>True\<close> makes the
  step throw, \<open>False\<close> (or an exhausted schedule) lets it succeed. A move construction of a
  type whose move constructor is \<open>noexcept\<close> consumes nothing. Destructors do not throw. A
  constructor or an assignment that throws is taken to leave its operands as they were.
\<close>

definition throws :: "bool list \<Rightarrow> bool" where
  "throws fs = (case fs of [] \<Rightarrow> False | b # _ \<Rightarrow> b)"

text \<open>
  The outcome of a call: it returns a value and leaves a state, or an exception leaves the
  call with a state, or the call has undefined behaviour (a read of a slot that holds no
  live element, an access outside the storage, a failed assertion).
\<close>

datatype ('r, 's) outcome = Returned 'r 's | Thrown 's | Undefined

text \<open>
  The state a member function works on: the sequence itself, the pending fault schedule and
  the storage blocks released so far, each as it was when it was released (a live element in
  a released block was never destroyed).
\<close>

record 'a state =
  vec :: "'a Vector"
  faults :: "bool list"
  released :: "'a RawMemory list"

datatype ctor = CopyCtor | MoveCtor

text \<open>
  The argument from which a new element is constructed: an object outside the sequence with
  the given value, or a reference to the element of the sequence itself at the given index
  (as in \<open>v.PushBack(v[0])\<close>).
\<close>

datatype 'a arg = External 'a | Element nat

subsection \<open>Slots\<close>

definition read :: "'a RawMemory \<Rightarrow> nat \<Rightarrow> 'a slot" where
  "read buf i = (if i < length buf then buf ! i else None)"

definition may_throw :: "'a elem_type \<Rightarrow> ctor \<Rightarrow> bool" where
  "may_throw et c = (case c of CopyCtor \<Rightarrow> True | MoveCtor \<Rightarrow> \<not> nothrow_move_constructible et)"

definition source_after :: "'a elem_type \<Rightarrow> ctor \<Rightarrow> 'a \<Rightarrow> 'a" where
  "source_after et c x = (case c of CopyCtor \<Rightarrow> x | MoveCtor \<Rightarrow> moved_from et x)"

definition after_step :: "bool \<Rightarrow> bool list \<Rightarrow> bool list" where
  "after_step fallible fs = (if fallible then tl fs else fs)"

text \<open>\<open>RawMemory(capacity)\<close>: no allocation for capacity 0, otherwise one that may fail.\<close>

definition RawMemory_new :: "nat \<Rightarrow> bool list \<Rightarrow> 'a RawMemory option \<times> bool list" where
  "RawMemory_new capacity fs =
     (if capacity = 0 then (Some [], fs)
      else if throws fs then (None, tl fs)
      else (Some (replicate capacity None), tl fs))"

subsection \<open>The standard algorithms the class calls\<close>

text \<open>\<open>std::destroy_n(first, n)\<close>; destroying what is not a live element is undefined.\<close>

fun destroy_n :: "'a RawMemory \<Rightarrow> nat \<Rightarrow> nat \<Rightarrow> 'a RawMemory option" where
  "destroy_n buf first 0 = Some buf"
| "destroy_n buf first (Suc n) =
     (case read buf first of
        None \<Rightarrow> None
      | Some x \<Rightarrow> destroy_n (buf[first := None]) (Suc first) n)"

definition destroy_at :: "'a RawMemory \<Rightarrow> nat \<Rightarrow> 'a RawMemory option" where
  "destroy_at buf i = destroy_n buf i 1"

text \<open>
  \<open>std::uninitialized_copy_n\<close> and \<open>std::uninitialized_move_n\<close> from one block into another:
  construct \<open>count\<close> elements at \<open>d_first\<close> from the elements at \<open>first\<close>; if a constructor
  throws, destroy the elements constructed so far, \<open>[d_first, current)\<close>, and rethrow.
  The state is the source block, the destination block and the fault schedule.
\<close>

fun uninitialized_loop ::
  "'a elem_type \<Rightarrow> ctor \<Rightarrow> nat \<Rightarrow> nat \<Rightarrow> nat \<Rightarrow> nat \<Rightarrow>
   'a RawMemory \<times> 'a RawMemory \<times> bool list \<Rightarrow>
   (unit, 'a RawMemory \<times> 'a RawMemory \<times> bool list) outcome" where
  "uninitialized_loop et c first 0 d_first current (src, dst, fs) = Returned () (src, dst, fs)"
| "uninitialized_loop et c first (Suc count) d_first current (src, dst, fs) =
     (case read src first of
        None \<Rightarrow> Undefined
      | Some x \<Rightarrow>
          if \<not> current < length dst then Undefined
          else if may_throw et c \<and> throws fs then
            (case destroy_n dst d_first (current - d_first) of
               None \<Rightarrow> Undefined
             | Some dst' \<Rightarrow> Thrown (src, dst', tl fs))
          else uninitialized_loop et c (Suc first) count d_first (Suc current)
                 (src[first := Some (source_after et c x)], dst[current := Some x],
                  after_step (may_throw et c) fs))"

definition uninitialized_copy_n ::
  "'a elem_type \<Rightarrow> 'a RawMemory \<Rightarrow> nat \<Rightarrow> nat \<Rightarrow> 'a RawMemory \<Rightarrow> nat \<Rightarrow> bool list \<Rightarrow>
   (unit, 'a RawMemory \<times> 'a RawMemory \<times> bool list) outcome" where
  "uninitialized_copy_n et src first count dst d_first fs =
     uninitialized_loop et CopyCtor first count d_first d_first (src, dst, fs)"

definition uninitialized_move_n ::
  "'a elem_type \<Rightarrow> 'a RawMemory \<Rightarrow> nat \<Rightarrow> nat \<Rightarrow> 'a RawMemory \<Rightarrow> nat \<Rightarrow> bool list \<Rightarrow>
   (unit, 'a RawMemory \<times> 'a RawMemory \<times> bool list) outcome" where
  "uninitialized_move_n et src first count dst d_first fs =
     uninitialized_loop et MoveCtor first count d_first d_first (src, dst, fs)"

text \<open>\<open>std::uninitialized_value_construct_n(first, n)\<close>, with the same clean-up.\<close>

fun value_construct_loop ::
  "'a elem_type \<Rightarrow> nat \<Rightarrow> nat \<Rightarrow> nat \<Rightarrow> 'a RawMemory \<times> bool list \<Rightarrow>
   (unit, 'a RawMemory \<times> bool list) outcome" where
  "value_construct_loop et first current 0 (buf, fs) = Returned () (buf, fs)"
| "value_construct_loop et first current (Suc n) (buf, fs) =
     (if \<not> current < length buf then Undefined
      else if throws fs then
        (case destroy_n buf first (current - first) of
           None \<Rightarrow> Undefined
         | Some buf' \<Rightarrow> Thrown (buf', tl fs))
      else value_construct_loop et first (Suc current) n
             (buf[current := Some (value_initialized et)], tl fs))"

definition uninitialized_value_construct_n ::
  "'a elem_type \<Rightarrow> 'a RawMemory \<Rightarrow> nat \<Rightarrow> nat \<Rightarrow> bool list \<Rightarrow>
   (unit, 'a RawMemory \<times> bool list) outcome" where
  "uninitialized_value_construct_n et buf first n fs = value_construct_loop et first first n (buf, fs)"

text \<open>
  \<open>std::copy_n(first, count, result)\<close> between two blocks: copy assignment, element by
  element; an assignment that throws leaves the elements assigned so far as they are.
\<close>

fun copy_n :: "'a RawMemory \<Rightarrow> nat \<Rightarrow> nat \<Rightarrow> nat \<Rightarrow> 'a RawMemory \<times> bool list \<Rightarrow>
   (unit, 'a RawMemory \<times> bool list) outcome" where
  "copy_n src first 0 result (dst, fs) = Returned () (dst, fs)"
| "copy_n src first (Suc count) result (dst, fs) =
     (case (read src first, read dst result) of
        (Some x, Some y) \<Rightarrow>
          if throws fs then Thrown (dst, tl fs)
          else copy_n src (Suc first) count (Suc result) (dst[result := Some x], tl fs)
      | _ \<Rightarrow> Undefined)"

text \<open>
  \<open>std::move(first, last, d_first)\<close> within one block, by move assignment from the front;
  \<open>count\<close> is \<open>last - first\<close>. It returns the end of the destination range.
\<close>

fun move_range :: "'a elem_type \<Rightarrow> nat \<Rightarrow> nat \<Rightarrow> nat \<Rightarrow> 'a RawMemory \<times> bool list \<Rightarrow>
   (nat, 'a RawMemory \<times> bool list) outcome" where
  "move_range et first 0 d_first (buf, fs) = Returned d_first (buf, fs)"
| "move_range et first (Suc count) d_first (buf, fs) =
     (case (read buf first, read buf d_first) of
        (Some x, Some y) \<Rightarrow>
          if throws fs then Thrown (buf, tl fs)
          else move_range et (Suc first) count (Suc d_first)
                 (buf[d_first := Some x, first := Some (moved_from et x)], tl fs)
      | _ \<Rightarrow> Undefined)"

text \<open>
  \<open>std::move_backward(first, last, d_last)\<close> within one block, by move assignment from the
  back: \<open>*(--d_last) = std::move(*(--last))\<close>, \<open>count = last - first\<close> times.
\<close>

fun move_backward :: "'a elem_type \<Rightarrow> nat \<Rightarrow> nat \<Rightarrow> nat \<Rightarrow> 'a RawMemory \<times> bool list \<Rightarrow>
   (nat, 'a RawMemory \<times> bool list) outcome" where
  "move_backward et 0 last_it d_last (buf, fs) = Returned d_last (buf, fs)"
| "move_backward et (Suc count) last_it d_last (buf, fs) =
     (if last_it = 0 \<or> d_last = 0 then Undefined
      else case (read buf (last_it - 1), read buf (d_last - 1)) of
        (Some x, Some y) \<Rightarrow>
          if throws fs then Thrown (buf, tl fs)
          else move_backward et count (last_it - 1) (d_last - 1)
                 (buf[d_last - 1 := Some x, last_it - 1 := Some (moved_from et x)], tl fs)
      | _ \<Rightarrow> Undefined)"

text \<open>
  \<open>std::construct_at(p, args...)\<close> (and placement \<open>new\<close>): the argument is read where it
  lives, in the sequence's own storage \<open>own\<close> if it refers to one of its elements.
\<close>

definition arg_value :: "'a RawMemory \<Rightarrow> 'a arg \<Rightarrow> 'a option" where
  "arg_value own a = (case a of External x \<Rightarrow> Some x | Element i \<Rightarrow> read own i)"

definition construct_at ::
  "'a RawMemory \<Rightarrow> 'a arg \<Rightarrow> 'a RawMemory \<Rightarrow> nat \<Rightarrow> bool list \<Rightarrow>
   (unit, 'a RawMemory \<times> bool list) outcome" where
  "construct_at own a buf i fs =
     (case arg_value own a of
        None \<Rightarrow> Undefined
      | Some x \<Rightarrow>
          if \<not> i < length buf then Undefined
          else if throws fs then Thrown (buf, tl fs)
          else Returned () (buf[i := Some x], tl fs))"

text \<open>
  \<open>std::construct_at(end(), std::move(data_[size_ - 1]))\<close>: a move construction at slot \<open>i\<close>
  from the element at slot \<open>j\<close> of the same block.
\<close>

definition construct_at_moved ::
  "'a elem_type \<Rightarrow> 'a RawMemory \<Rightarrow> nat \<Rightarrow> nat \<Rightarrow> bool list \<Rightarrow>
   (unit, 'a RawMemory \<times> bool list) outcome" where
  "construct_at_moved et buf i j fs =
     (case read buf j of
        None \<Rightarrow> Undefined
      | Some x \<Rightarrow>
          if \<not> i < length buf then Undefined
          else if may_throw et MoveCtor \<and> throws fs then Thrown (buf, tl fs)
          else Returned () (buf[i := Some x, j := Some (moved_from et x)],
                            after_step (may_throw et MoveCtor) fs))"

text \<open>\<open>data_[i] = std::move(temp_val)\<close>: a move assignment to the live element at \<open>i\<close>.\<close>

definition assign_at ::
  "'a RawMemory \<Rightarrow> nat \<Rightarrow> 'a \<Rightarrow> bool list \<Rightarrow> (unit, 'a RawMemory \<times> bool list) outcome" where
  "assign_at buf i t fs =
     (case read buf i of
        None \<Rightarrow> Undefined
      | Some y \<Rightarrow> if throws fs then Thrown (buf, tl fs) else Returned () (buf[i := Some t], tl fs))"

section \<open>The class Vector (vector.h)\<close>

text \<open>
  The file holds the class twice; the second text has the constructors, the assignments,
  \<open>Reserve\<close>, \<open>Swap\<close> and the accessors only, with the same bodies as the first, which is the
  one modelled here.
\<close>

definition Size :: "'a Vector \<Rightarrow> nat" where
  "Size v = m_size v"

definition Capacity :: "'a Vector \<Rightarrow> nat" where
  "Capacity v = length (m_data v)"

text \<open>\<open>operator[]\<close>: \<open>assert(index < size_)\<close>, then the element.\<close>

definition index :: "'a Vector \<Rightarrow> nat \<Rightarrow> 'a option" where
  "index v i = (if i < m_size v then read (m_data v) i else None)"

definition ShiftDataToNewMemory ::
  "'a elem_type \<Rightarrow> 'a RawMemory \<Rightarrow> nat \<Rightarrow> nat \<Rightarrow> 'a RawMemory \<Rightarrow> nat \<Rightarrow> bool list \<Rightarrow>
   (unit, 'a RawMemory \<times> 'a RawMemory \<times> bool list) outcome" where
  "ShiftDataToNewMemory et old_buf first count new_buf d_first fs =
     (if nothrow_move_constructible et \<or> \<not> copy_constructible et
      then uninitialized_move_n et old_buf first count new_buf d_first fs
      else uninitialized_copy_n et old_buf first count new_buf d_first fs)"

text \<open>
  \<open>Reserve\<close>. After \<open>data_.Swap(new_data)\<close> the local \<open>new_data\<close> owns the old block and
  releases it when the function returns; when an exception leaves the function it releases
  the new block.
\<close>

definition Reserve :: "'a elem_type \<Rightarrow> nat \<Rightarrow> 'a state \<Rightarrow> (unit, 'a state) outcome" where
  "Reserve et new_capacity s =
     (if new_capacity \<le> Capacity (vec s) then Returned () s
      else case RawMemory_new new_capacity (faults s) of
        (None, fs1) \<Rightarrow> Thrown (s\<lparr>faults := fs1\<rparr>)
      | (Some new_data, fs1) \<Rightarrow>
          (case ShiftDataToNewMemory et (m_data (vec s)) 0 (m_size (vec s)) new_data 0 fs1 of
             Undefined \<Rightarrow> Undefined
           | Thrown (old, new, fs2) \<Rightarrow>
               Thrown \<lparr>vec = (vec s)\<lparr>m_data := old\<rparr>, faults = fs2,
                       released = released s @ [new]\<rparr>
           | Returned u (old, new, fs2) \<Rightarrow>
               (case destroy_n old 0 (m_size (vec s)) of
                  None \<Rightarrow> Undefined
                | Some old' \<Rightarrow>
                    Returned () \<lparr>vec = \<lparr>m_data = new, m_size = m_size (vec s)\<rparr>, faults = fs2,
                                 released = released s @ [old']\<rparr>)))"

text \<open>
  \<open>Emplace\<close>, the branch \<open>size_ == Capacity()\<close>. A position outside \<open>[cbegin(), cend()]\<close> is
  not an iterator of the sequence: the pointer arithmetic on it is undefined.
\<close>

definition Emplace_reallocate ::
  "'a elem_type \<Rightarrow> nat \<Rightarrow> 'a arg \<Rightarrow> 'a state \<Rightarrow> (unit, 'a state) outcome" where
  "Emplace_reallocate et offset a s =
     (let v = vec s; n = m_size v in
      case RawMemory_new (if n = 0 then 1 else n * 2) (faults s) of
        (None, fs1) \<Rightarrow> Thrown (s\<lparr>faults := fs1\<rparr>)
      | (Some new_data, fs1) \<Rightarrow>
          (case construct_at (m_data v) a new_data offset fs1 of
             Undefined \<Rightarrow> Undefined
           | Thrown (nd1, fs2) \<Rightarrow>
               Thrown \<lparr>vec = v, faults = fs2, released = released s @ [nd1]\<rparr>
           | Returned u1 (nd1, fs2) \<Rightarrow>
               (case ShiftDataToNewMemory et (m_data v) 0 offset nd1 0 fs2 of
                  Undefined \<Rightarrow> Undefined
                | Thrown (old1, nd2, fs3) \<Rightarrow>
                    (case destroy_n nd2 offset 1 of
                       None \<Rightarrow> Undefined
                     | Some nd3 \<Rightarrow>
                         Thrown \<lparr>vec = v\<lparr>m_data := old1\<rparr>, faults = fs3,
                                 released = released s @ [nd3]\<rparr>)
                | Returned u2 (old1, nd2, fs3) \<Rightarrow>
                    (case ShiftDataToNewMemory et old1 offset (n - offset) nd2 (offset + 1) fs3 of
                       Undefined \<Rightarrow> Undefined
                     | Thrown (old2, nd3, fs4) \<Rightarrow>
                         (case destroy_n nd3 0 (offset + 1) of
                            None \<Rightarrow> Undefined
                          | Some nd4 \<Rightarrow>
                              Thrown \<lparr>vec = v\<lparr>m_data := old2\<rparr>, faults = fs4,
                                      released = released s @ [nd4]\<rparr>)
                     | Returned u3 (old2, nd3, fs4) \<Rightarrow>
                         (case destroy_n old2 0 n of
                            None \<Rightarrow> Undefined
                          | Some old3 \<Rightarrow>
                              Returned () \<lparr>vec = \<lparr>m_data = nd3, m_size = n\<rparr>, faults = fs4,
                                           released = released s @ [old3]\<rparr>)))))"

text \<open>
  \<open>Emplace\<close>, the branch \<open>size_ < Capacity()\<close>: at the end the element is constructed in place;
  elsewhere a temporary is constructed, the last element is move-constructed into the free
  slot behind it, \<open>[pos, end() - 1)\<close> is moved one slot up from the back, and the temporary is
  move-assigned to the slot at \<open>pos\<close>.
\<close>

definition Emplace_in_place ::
  "'a elem_type \<Rightarrow> nat \<Rightarrow> 'a arg \<Rightarrow> 'a state \<Rightarrow> (unit, 'a state) outcome" where
  "Emplace_in_place et offset a s =
     (let v = vec s; n = m_size v in
      if offset = n then
        (case construct_at (m_data v) a (m_data v) n (faults s) of
           Undefined \<Rightarrow> Undefined
         | Thrown (buf, fs1) \<Rightarrow> Thrown (s\<lparr>vec := v\<lparr>m_data := buf\<rparr>, faults := fs1\<rparr>)
         | Returned u (buf, fs1) \<Rightarrow> Returned () (s\<lparr>vec := v\<lparr>m_data := buf\<rparr>, faults := fs1\<rparr>))
      else
        (case arg_value (m_data v) a of
           None \<Rightarrow> Undefined
         | Some temp_val \<Rightarrow>
             if throws (faults s) then Thrown (s\<lparr>faults := tl (faults s)\<rparr>)
             else
               (case construct_at_moved et (m_data v) n (n - 1) (tl (faults s)) of
                  Undefined \<Rightarrow> Undefined
                | Thrown (buf, fs1) \<Rightarrow> Thrown (s\<lparr>vec := v\<lparr>m_data := buf\<rparr>, faults := fs1\<rparr>)
                | Returned u1 (buf1, fs1) \<Rightarrow>
                    (case move_backward et (n - 1 - offset) (n - 1) n (buf1, fs1) of
                       Undefined \<Rightarrow> Undefined
                     | Thrown (buf, fs2) \<Rightarrow>
                         Thrown (s\<lparr>vec := v\<lparr>m_data := buf\<rparr>, faults := fs2\<rparr>)
                     | Returned u2 (buf2, fs2) \<Rightarrow>
                         (case assign_at buf2 offset temp_val fs2 of
                            Undefined \<Rightarrow> Undefined
                          | Thrown (buf, fs3) \<Rightarrow>
                              Thrown (s\<lparr>vec := v\<lparr>m_data := buf\<rparr>, faults := fs3\<rparr>)
                          | Returned u3 (buf3, fs3) \<Rightarrow>
                              Returned () (s\<lparr>vec := v\<lparr>m_data := buf3\<rparr>, faults := fs3\<rparr>))))))"

text \<open>\<open>Emplace\<close>: one of the two branches, then \<open>++size_\<close> and \<open>return begin() + offset\<close>.\<close>

definition Emplace :: "'a elem_type \<Rightarrow> nat \<Rightarrow> 'a arg \<Rightarrow> 'a state \<Rightarrow> (nat, 'a state) outcome" where
  "Emplace et offset a s =
     (if offset > m_size (vec s) then Undefined
      else case (if m_size (vec s) = Capacity (vec s)
                 then Emplace_reallocate et offset a s
                 else Emplace_in_place et offset a s) of
        Undefined \<Rightarrow> Undefined
      | Thrown s' \<Rightarrow> Thrown s'
      | Returned u s' \<Rightarrow>
          Returned offset (s'\<lparr>vec := (vec s')\<lparr>m_size := m_size (vec s') + 1\<rparr>\<rparr>))"

definition Insert :: "'a elem_type \<Rightarrow> nat \<Rightarrow> 'a arg \<Rightarrow> 'a state \<Rightarrow> (nat, 'a state) outcome" where
  "Insert et pos value s = Emplace et pos value s"

text \<open>
  \<open>Erase\<close>: \<open>std::move(begin() + offset + 1, end(), begin() + offset)\<close>, then
  \<open>std::destroy_at(data_.GetAddress() + offset)\<close>, then \<open>--size_\<close>.
\<close>

definition Erase :: "'a elem_type \<Rightarrow> nat \<Rightarrow> 'a state \<Rightarrow> (nat, 'a state) outcome" where
  "Erase et offset s =
     (let v = vec s; n = m_size v in
      if \<not> offset < n then Undefined
      else case move_range et (offset + 1) (n - (offset + 1)) offset (m_data v, faults s) of
        Undefined \<Rightarrow> Undefined
      | Thrown (buf, fs1) \<Rightarrow> Thrown (s\<lparr>vec := v\<lparr>m_data := buf\<rparr>, faults := fs1\<rparr>)
      | Returned e (buf, fs1) \<Rightarrow>
          (case destroy_at buf offset of
             None \<Rightarrow> Undefined
           | Some buf' \<Rightarrow>
               Returned offset (s\<lparr>vec := \<lparr>m_data = buf', m_size = n - 1\<rparr>, faults := fs1\<rparr>)))"

text \<open>\<open>Resize\<close> as vector.h has it.\<close>

definition Resize :: "'a elem_type \<Rightarrow> nat \<Rightarrow> 'a state \<Rightarrow> (unit, 'a state) outcome" where
  "Resize et new_size s =
     (case (if new_size > Capacity (vec s) then Reserve et new_size s else Returned () s) of
        Undefined \<Rightarrow> Undefined
      | Thrown s1 \<Rightarrow> Thrown s1
      | Returned u s1 \<Rightarrow>
          (let v = vec s1; n = m_size v in
           if new_size > n then
             (case uninitialized_value_construct_n et (m_data v) n (new_size - n) (faults s1) of
                Undefined \<Rightarrow> Undefined
              | Thrown (buf, fs) \<Rightarrow> Thrown (s1\<lparr>vec := v\<lparr>m_data := buf\<rparr>, faults := fs\<rparr>)
              | Returned u' (buf, fs) \<Rightarrow>
                  Returned () (s1\<lparr>vec := \<lparr>m_data = buf, m_size = new_size\<rparr>, faults := fs\<rparr>))
           else
             (case destroy_n (m_data v) new_size (n - new_size) of
                None \<Rightarrow> Undefined
              | Some buf \<Rightarrow> Returned () (s1\<lparr>vec := \<lparr>m_data = buf, m_size = new_size\<rparr>\<rparr>))))"

text \<open>\<open>EmplaceBack\<close> returns \<open>*it\<close>, a reference: it is modelled by the index of the element.\<close>

definition EmplaceBack :: "'a elem_type \<Rightarrow> 'a arg \<Rightarrow> 'a state \<Rightarrow> (nat, 'a state) outcome" where
  "EmplaceBack et a s = Emplace et (m_size (vec s)) a s"

text \<open>\<open>PushBack\<close> has return type \<open>void\<close>.\<close>

definition PushBack :: "'a elem_type \<Rightarrow> 'a arg \<Rightarrow> 'a state \<Rightarrow> (unit, 'a state) outcome" where
  "PushBack et value s =
     (case EmplaceBack et value s of
        Undefined \<Rightarrow> Undefined
      | Thrown s' \<Rightarrow> Thrown s'
      | Returned r s' \<Rightarrow> Returned () s')"

text \<open>\<open>PopBack\<close> (\<open>noexcept\<close>): \<open>assert(size_ > 0)\<close>, destroy the last element, \<open>--size_\<close>.\<close>

definition PopBack :: "'a Vector \<Rightarrow> (unit, 'a Vector) outcome" where
  "PopBack v =
     (if \<not> m_size v > 0 then Undefined
      else case destroy_at (m_data v) (m_size v - 1) of
        None \<Rightarrow> Undefined
      | Some buf \<Rightarrow> Returned () \<lparr>m_data = buf, m_size = m_size v - 1\<rparr>)"

text \<open>\<open>Swap\<close> (\<open>noexcept\<close>) on \<open>(*this, other)\<close>.\<close>

definition Swap :: "'a Vector \<times> 'a Vector \<Rightarrow> 'a Vector \<times> 'a Vector" where
  "Swap p = (case p of (this, other) \<Rightarrow>
     (\<lparr>m_data = m_data other, m_size = m_size other\<rparr>, \<lparr>m_data = m_data this, m_size = m_size this\<rparr>))"

subsection \<open>Construction, destruction, assignment\<close>

text \<open>
  A constructor has no sequence to start from: its state is the fault schedule and the
  released blocks, and it returns the new sequence. When the body of a constructor throws,
  the member \<open>data_\<close> is released and the destructor of \<open>Vector\<close> does not run.
\<close>

definition Vector_default :: "'a Vector" where
  "Vector_default = \<lparr>m_data = [], m_size = 0\<rparr>"

definition Vector_sized ::
  "'a elem_type \<Rightarrow> nat \<Rightarrow> bool list \<times> 'a RawMemory list \<Rightarrow>
   ('a Vector, bool list \<times> 'a RawMemory list) outcome" where
  "Vector_sized et n w =
     (case RawMemory_new n (fst w) of
        (None, fs1) \<Rightarrow> Thrown (fs1, snd w)
      | (Some buf, fs1) \<Rightarrow>
          (case uninitialized_value_construct_n et buf 0 n fs1 of
             Undefined \<Rightarrow> Undefined
           | Thrown (buf', fs2) \<Rightarrow> Thrown (fs2, snd w @ [buf'])
           | Returned u (buf', fs2) \<Rightarrow> Returned \<lparr>m_data = buf', m_size = n\<rparr> (fs2, snd w)))"

definition Vector_copy ::
  "'a elem_type \<Rightarrow> 'a Vector \<Rightarrow> bool list \<times> 'a RawMemory list \<Rightarrow>
   ('a Vector, bool list \<times> 'a RawMemory list) outcome" where
  "Vector_copy et other w =
     (case RawMemory_new (m_size other) (fst w) of
        (None, fs1) \<Rightarrow> Thrown (fs1, snd w)
      | (Some buf, fs1) \<Rightarrow>
          (case uninitialized_copy_n et (m_data other) 0 (m_size other) buf 0 fs1 of
             Undefined \<Rightarrow> Undefined
           | Thrown (src, buf', fs2) \<Rightarrow> Thrown (fs2, snd w @ [buf'])
           | Returned u (src, buf', fs2) \<Rightarrow>
               Returned \<lparr>m_data = buf', m_size = m_size other\<rparr> (fs2, snd w)))"

text \<open>
  The move constructor (\<open>noexcept\<close>) returns the new sequence and what is left of \<open>other\<close>.
  Modelled from the spec: the move of \<open>RawMemory\<close> leaves its source with capacity 0.
\<close>

definition Vector_move :: "'a Vector \<Rightarrow> 'a Vector \<times> 'a Vector" where
  "Vector_move other = (\<lparr>m_data = m_data other, m_size = m_size other\<rparr>, \<lparr>m_data = [], m_size = 0\<rparr>)"

text \<open>The destructor: \<open>std::destroy_n(data_.GetAddress(), size_)\<close>, then \<open>data_\<close> is released.\<close>

definition Vector_destroy :: "'a Vector \<Rightarrow> 'a RawMemory list \<Rightarrow> 'a RawMemory list option" where
  "Vector_destroy v rel =
     (case destroy_n (m_data v) 0 (m_size v) of
        None \<Rightarrow> None
      | Some buf \<Rightarrow> Some (rel @ [buf]))"

text \<open>
  Copy assignment from a distinct object \<open>other\<close> (for \<open>this == &other\<close> the body is
  skipped, which \<open>self_assignment\<close> stands for).
\<close>

definition copy_assign ::
  "'a elem_type \<Rightarrow> bool \<Rightarrow> 'a Vector \<Rightarrow> 'a state \<Rightarrow> (unit, 'a state) outcome" where
  "copy_assign et self_assignment other s =
     (if self_assignment then Returned () s
      else if m_size other > Capacity (vec s) then
        (case Vector_copy et other (faults s, released s) of
           Undefined \<Rightarrow> Undefined
         | Thrown (fs, rel) \<Rightarrow> Thrown (s\<lparr>faults := fs, released := rel\<rparr>)
         | Returned temp (fs, rel) \<Rightarrow>
             (case Swap (vec s, temp) of (this', temp') \<Rightarrow>
                (case Vector_destroy temp' rel of
                   None \<Rightarrow> Undefined
                 | Some rel' \<Rightarrow> Returned () \<lparr>vec = this', faults = fs, released = rel'\<rparr>)))
      else
        (let v = vec s; min_size = min (m_size v) (m_size other) in
         case copy_n (m_data other) 0 min_size 0 (m_data v, faults s) of
           Undefined \<Rightarrow> Undefined
         | Thrown (buf, fs) \<Rightarrow> Thrown (s\<lparr>vec := v\<lparr>m_data := buf\<rparr>, faults := fs\<rparr>)
         | Returned u (buf, fs) \<Rightarrow>
             if m_size v < m_size other then
               (case uninitialized_copy_n et (m_data other) min_size (m_size other - min_size)
                       buf min_size fs of
                  Undefined \<Rightarrow> Undefined
                | Thrown (src, buf', fs') \<Rightarrow>
                    Thrown (s\<lparr>vec := v\<lparr>m_data := buf'\<rparr>, faults := fs'\<rparr>)
                | Returned u' (src, buf', fs') \<Rightarrow>
                    Returned () (s\<lparr>vec := \<lparr>m_data = buf', m_size = m_size other\<rparr>, faults := fs'\<rparr>))
             else
               (case destroy_n buf (m_size other) (m_size v - m_size other) of
                  None \<Rightarrow> Undefined
                | Some buf' \<Rightarrow>
                    Returned () (s\<lparr>vec := \<lparr>m_data = buf', m_size = m_size other\<rparr>, faults := fs\<rparr>))))"

text \<open>Move assignment (\<open>noexcept\<close>) on \<open>(*this, other)\<close>.\<close>

definition move_assign :: "bool \<Rightarrow> 'a Vector \<times> 'a Vector \<Rightarrow> 'a Vector \<times> 'a Vector" where
  "move_assign self_assignment p = (if self_assignment then p else Swap p)"

section \<open>The other version of the class (src/unnamed/part_000)\<close>

text \<open>
  It has the same constructors, assignments, \<open>Reserve\<close> (with the body of
  \<open>ShiftDataToNewMemory\<close> written out in place), \<open>PopBack\<close> and \<open>Swap\<close>; it has no \<open>Emplace\<close>,
  \<open>Insert\<close> or \<open>Erase\<close>, and its own \<open>Resize\<close>, \<open>PushBack\<close> and \<open>EmplaceBack\<close>, suffixed \<open>_0\<close>
  here.
\<close>

definition Resize_0 :: "'a elem_type \<Rightarrow> nat \<Rightarrow> 'a state \<Rightarrow> (unit, 'a state) outcome" where
  "Resize_0 et new_size s =
     (let v = vec s; n = m_size v in
      if new_size < n then
        (case destroy_n (m_data v) new_size (n - new_size) of
           None \<Rightarrow> Undefined
         | Some buf \<Rightarrow> Returned () (s\<lparr>vec := \<lparr>m_data = buf, m_size = new_size\<rparr>\<rparr>))
      else if new_size > n then
        (case Reserve et new_size s of
           Undefined \<Rightarrow> Undefined
         | Thrown s1 \<Rightarrow> Thrown s1
         | Returned u s1 \<Rightarrow>
             (case uninitialized_value_construct_n et (m_data (vec s1)) (m_size (vec s1))
                     (new_size - m_size (vec s1)) (faults s1) of
                Undefined \<Rightarrow> Undefined
              | Thrown (buf, fs) \<Rightarrow> Thrown (s1\<lparr>vec := (vec s1)\<lparr>m_data := buf\<rparr>, faults := fs\<rparr>)
              | Returned u' (buf, fs) \<Rightarrow>
                  Returned () (s1\<lparr>vec := \<lparr>m_data = buf, m_size = new_size\<rparr>, faults := fs\<rparr>)))
      else Returned () s)"

text \<open>
  \<open>ReallocateAndPush\<close>: the old elements are transferred first, then the new element is
  constructed from \<open>value\<close>, which is read at that moment in the old block \<open>old\<close>. Nothing
  catches an exception of that constructor: the new block is released as it is.
\<close>

definition ReallocateAndPush :: "'a elem_type \<Rightarrow> 'a arg \<Rightarrow> 'a state \<Rightarrow> (unit, 'a state) outcome" where
  "ReallocateAndPush et value s =
     (let v = vec s; n = m_size v in
      case RawMemory_new (if n = 0 then 1 else n * 2) (faults s) of
        (None, fs1) \<Rightarrow> Thrown (s\<lparr>faults := fs1\<rparr>)
      | (Some data_copy, fs1) \<Rightarrow>
          (case ShiftDataToNewMemory et (m_data v) 0 n data_copy 0 fs1 of
             Undefined \<Rightarrow> Undefined
           | Thrown (old, dc, fs2) \<Rightarrow>
               Thrown \<lparr>vec = v\<lparr>m_data := old\<rparr>, faults = fs2, released = released s @ [dc]\<rparr>
           | Returned u (old, dc, fs2) \<Rightarrow>
               (case construct_at old value dc n fs2 of
                  Undefined \<Rightarrow> Undefined
                | Thrown (dc1, fs3) \<Rightarrow>
                    Thrown \<lparr>vec = v\<lparr>m_data := old\<rparr>, faults = fs3, released = released s @ [dc1]\<rparr>
                | Returned u1 (dc1, fs3) \<Rightarrow>
                    (case destroy_n old 0 n of
                       None \<Rightarrow> Undefined
                     | Some old1 \<Rightarrow>
                         Returned () \<lparr>vec = \<lparr>m_data = dc1, m_size = n + 1\<rparr>, faults = fs3,
                                      released = released s @ [old1]\<rparr>))))"

definition PushBack_0 :: "'a elem_type \<Rightarrow> 'a arg \<Rightarrow> 'a state \<Rightarrow> (unit, 'a state) outcome" where
  "PushBack_0 et value s =
     (let v = vec s; n = m_size v in
      if n < Capacity v then
        (case construct_at (m_data v) value (m_data v) n (faults s) of
           Undefined \<Rightarrow> Undefined
         | Thrown (buf, fs1) \<Rightarrow> Thrown (s\<lparr>vec := v\<lparr>m_data := buf\<rparr>, faults := fs1\<rparr>)
         | Returned u (buf, fs1) \<Rightarrow>
             Returned () (s\<lparr>vec := \<lparr>m_data = buf, m_size = n + 1\<rparr>, faults := fs1\<rparr>))
      else ReallocateAndPush et value s)"

text \<open>
  \<open>ReallocateAndEmplace\<close>: the new element is constructed first, at \<open>dest\<close>; the hand-written
  loop with its handler (\<open>destroy_n(new_begin, i)\<close>) is the loop of
  \<open>std::uninitialized_move_n\<close> or \<open>std::uninitialized_copy_n\<close>, and the handler then destroys
  the element at \<open>dest\<close>. It returns \<open>data_[size_ - 1]\<close>.
\<close>

definition ReallocateAndEmplace :: "'a elem_type \<Rightarrow> 'a arg \<Rightarrow> 'a state \<Rightarrow> (nat, 'a state) outcome" where
  "ReallocateAndEmplace et a s =
     (let v = vec s; n = m_size v in
      case RawMemory_new (if n = 0 then 1 else n * 2) (faults s) of
        (None, fs1) \<Rightarrow> Thrown (s\<lparr>faults := fs1\<rparr>)
      | (Some new_data, fs1) \<Rightarrow>
          (case construct_at (m_data v) a new_data n fs1 of
             Undefined \<Rightarrow> Undefined
           | Thrown (nd1, fs2) \<Rightarrow>
               Thrown \<lparr>vec = v, faults = fs2, released = released s @ [nd1]\<rparr>
           | Returned u1 (nd1, fs2) \<Rightarrow>
               (case ShiftDataToNewMemory et (m_data v) 0 n nd1 0 fs2 of
                  Undefined \<Rightarrow> Undefined
                | Thrown (old1, nd2, fs3) \<Rightarrow>
                    (case destroy_at nd2 n of
                       None \<Rightarrow> Undefined
                     | Some nd3 \<Rightarrow>
                         Thrown \<lparr>vec = v\<lparr>m_data := old1\<rparr>, faults = fs3,
                                 released = released s @ [nd3]\<rparr>)
                | Returned u2 (old1, nd2, fs3) \<Rightarrow>
                    (case destroy_n old1 0 n of
                       None \<Rightarrow> Undefined
                     | Some old2 \<Rightarrow>
                         Returned n \<lparr>vec = \<lparr>m_data = nd2, m_size = n + 1\<rparr>, faults = fs3,
                                      released = released s @ [old2]\<rparr>))))"

definition EmplaceBack_0 :: "'a elem_type \<Rightarrow> 'a arg \<Rightarrow> 'a state \<Rightarrow> (nat, 'a state) outcome" where
  "EmplaceBack_0 et a s =
     (let v = vec s; n = m_size v in
      if n < Capacity v then
        (case construct_at (m_data v) a (m_data v) n (faults s) of
           Undefined \<Rightarrow> Undefined
         | Thrown (buf, fs1) \<Rightarrow> Thrown (s\<lparr>vec := v\<lparr>m_data := buf\<rparr>, faults := fs1\<rparr>)
         | Returned u (buf, fs1) \<Rightarrow>
             Returned n (s\<lparr>vec := \<lparr>m_data = buf, m_size = n + 1\<rparr>, faults := fs1\<rparr>))
      else ReallocateAndEmplace et a s)"

section \<open>Representation invariant and abstraction\<close>

text \<open>
  The invariant of the data model: the size is at most the capacity, exactly the first
  \<open>size\<close> slots hold live elements, the slots behind them are uninitialized.
\<close>

definition invar :: "'a Vector \<Rightarrow> bool" where
  "invar v = (m_size v \<le> length (m_data v) \<and>
              list_all (\<lambda>sl. sl \<noteq> None) (take (m_size v) (m_data v)) \<and>
              list_all (\<lambda>sl. sl = None) (drop (m_size v) (m_data v)))"

text \<open>The element values of a sequence, in index order.\<close>

definition elems :: "'a Vector \<Rightarrow> 'a list" where
  "elems v = map the (take (m_size v) (m_data v))"

text \<open>A block in which no element is live.\<close>

definition all_uninitialized :: "'a RawMemory \<Rightarrow> bool" where
  "all_uninitialized buf = list_all (\<lambda>sl. sl = None) buf"

text \<open>A schedule without faults.\<close>

definition no_faults :: "bool list \<Rightarrow> bool" where
  "no_faults fs = list_all (\<lambda>b. \<not> b) fs"

section \<open>Notions used in the statements\<close>

text \<open>A fault among the next \<open>n\<close> entries of a schedule, and the position of the first one.\<close>

definition fault_in :: "nat \<Rightarrow> bool list \<Rightarrow> bool" where
  "fault_in n fs = (True \<in> set (take n fs))"

definition first_fault :: "bool list \<Rightarrow> nat" where
  "first_fault fs = length (takeWhile (\<lambda>b. \<not> b) fs)"

text \<open>The constructor that \<open>ShiftDataToNewMemory\<close> selects for an element type.\<close>

definition transfer_ctor :: "'a elem_type \<Rightarrow> ctor" where
  "transfer_ctor et =
     (if nothrow_move_constructible et \<or> \<not> copy_constructible et then MoveCtor else CopyCtor)"

text \<open>The source elements after the first \<open>j\<close> of them have been transferred.\<close>

definition partially :: "'a elem_type \<Rightarrow> ctor \<Rightarrow> nat \<Rightarrow> 'a list \<Rightarrow> 'a list" where
  "partially et c j xs = map (source_after et c) (take j xs) @ drop j xs"

text \<open>The schedule after \<open>n\<close> constructor calls.\<close>

definition consumed :: "'a elem_type \<Rightarrow> ctor \<Rightarrow> nat \<Rightarrow> bool list \<Rightarrow> bool list" where
  "consumed et c n fs = (if may_throw et c then drop n fs else fs)"

text \<open>The capacity that \<open>Emplace\<close> and the \<open>ReallocateAnd...\<close> functions allocate.\<close>

definition new_capacity_for :: "nat \<Rightarrow> nat" where
  "new_capacity_for n = (if n = 0 then 1 else n * 2)"

text \<open>
  The number of steps that may throw when \<open>Emplace\<close> inserts in place before the end: the
  construction of the temporary, the move construction of the last element (unless it is
  \<open>noexcept\<close>), one move assignment for each element of \<open>[pos, end() - 1)\<close>, and the move
  assignment of the temporary. And the number for \<open>Emplace\<close> as a whole: when it reallocates,
  the allocation, the construction of the new element and one constructor call for each old
  element (unless they are \<open>noexcept\<close> moves).
\<close>

definition in_place_steps :: "'a elem_type \<Rightarrow> nat \<Rightarrow> nat \<Rightarrow> nat" where
  "in_place_steps et n offset =
     1 + (if nothrow_move_constructible et then 0 else 1) + (n - 1 - offset) + 1"

definition emplace_steps :: "'a elem_type \<Rightarrow> nat \<Rightarrow> nat \<Rightarrow> nat \<Rightarrow> nat" where
  "emplace_steps et n cap p =
     (if n = cap then 2 + (if may_throw et (transfer_ctor et) then n else 0)
      else if p = n then 1
      else in_place_steps et n p)"

subsection \<open>Element types and sequences for the examples\<close>

text \<open>A type like \<open>int\<close>: a move is a copy and cannot throw.\<close>

definition trivial_type :: "nat elem_type" where
  "trivial_type = \<lparr>nothrow_move_constructible = True, copy_constructible = True,
                    moved_from = (\<lambda>x. x), value_initialized = 0\<rparr>"

text \<open>A type like \<open>std::string\<close>: a \<open>noexcept\<close> move that leaves the source empty.\<close>

definition string_type :: "string elem_type" where
  "string_type = \<lparr>nothrow_move_constructible = True, copy_constructible = True,
                   moved_from = (\<lambda>x. []), value_initialized = []\<rparr>"

text \<open>A type that can be copied and whose move constructor may throw.\<close>

definition copying_type :: "nat elem_type" where
  "copying_type = \<lparr>nothrow_move_constructible = False, copy_constructible = True,
                    moved_from = (\<lambda>x. 0), value_initialized = 0\<rparr>"


definition two_of_three :: "nat Vector" where
  "two_of_three = \<lparr>m_data = [Some 1, Some 2, None], m_size = 2\<rparr>"


definition full_pair :: "nat Vector" where
  "full_pair = \<lparr>m_data = [Some 1, Some 2], m_size = 2\<rparr>"

definition five :: "nat Vector" where
  "five = \<lparr>m_data = [Some 1, Some 2, Some 3, Some 4, Some 5, None, None], m_size = 5\<rparr>"

definition abc :: "string Vector" where
  "abc = \<lparr>m_data = [Some ''a'', Some ''b'', Some ''c''], m_size = 3\<rparr>"

definition ab :: "string Vector" where
  "ab = \<lparr>m_data = [Some ''a'', Some ''b''], m_size = 2\<rparr>"

text \<open>
  What it means that \<open>v'\<close> is \<open>v\<close> with \<open>x\<close> appended; that an outcome is a correct append
  (no undefined behaviour, an exception only if the schedule holds a fault, and on return the
  sequence with \<open>x\<close> appended); and that a returned reference is to the new element.
\<close>

definition appended :: "'a Vector \<Rightarrow> 'a \<Rightarrow> 'a Vector \<Rightarrow> bool" where
  "appended v x v' =
     (Size v' = Size v + 1 \<and> index v' (Size v) = Some x \<and> take (Size v) (elems v') = elems v \<and>
      elems v' = elems v @ [x] \<and> invar v')"

definition appends :: "('r, 'a state) outcome \<Rightarrow> 'a state \<Rightarrow> 'a \<Rightarrow> bool" where
  "appends out s x =
     (case out of
        Undefined \<Rightarrow> False
      | Thrown s' \<Rightarrow> \<not> no_faults (faults s)
      | Returned r s' \<Rightarrow> appended (vec s) x (vec s'))"

definition refers_to_new :: "(nat, 'a state) outcome \<Rightarrow> 'a state \<Rightarrow> 'a \<Rightarrow> bool" where
  "refers_to_new out s x =
     (case out of
        Returned r s' \<Rightarrow> r = Size (vec s) \<and> index (vec s') r = Some x
      | _ \<Rightarrow> True)"

text \<open>
  The value that \<open>ReallocateAndPush\<close> constructs the new element from, for an argument that had
  the value \<open>x\<close> at the call: the function reads its argument after the transfer, so that an
  element of the sequence itself is read as the transfer has left it.
\<close>

definition read_after_transfer :: "'a elem_type \<Rightarrow> 'a arg \<Rightarrow> 'a \<Rightarrow> 'a" where
  "read_after_transfer et a x =
     (case a of External z \<Rightarrow> x | Element i \<Rightarrow> source_after et (transfer_ctor et) x)"

definition abc_only :: "string Vector" where
  "abc_only = \<lparr>m_data = [Some ''abc''], m_size = 1\<rparr>"

section \<open>The fault schedule and the standard algorithms\<close>

lemma throws_simps [simp]: "throws [] = False" "throws (b # fs) = b"
  by (simp_all add: throws_def)

lemma fault_in_simps [simp]:
  "fault_in 0 fs = False" "fault_in n [] = False"
  "fault_in (Suc n) (b # fs) = (b \<or> fault_in n fs)"
  by (auto simp: fault_in_def)

lemma first_fault_simps [simp]:
  "first_fault [] = 0" "first_fault (True # fs) = 0" "first_fault (False # fs) = Suc (first_fault fs)"
  by (simp_all add: first_fault_def)

lemma read_mid [simp]: "read (pre @ Some x # post) (length pre) = Some x"
  by (simp add: read_def)

lemma read_mid_None [simp]: "read (pre @ None # post) (length pre) = None"
  by (simp add: read_def)

lemma read_end [simp]: "read pre (length pre) = None"
  by (simp add: read_def)

lemma destroy_n_live:
  "destroy_n (pre @ map Some xs @ post) (length pre) (length xs) =
   Some (pre @ replicate (length xs) None @ post)"
proof (induction xs arbitrary: pre)
  case Nil
  then show ?case by simp
next
  case (Cons x xs)
  have "destroy_n ((pre @ [None]) @ map Some xs @ post) (length (pre @ [None])) (length xs) =
        Some ((pre @ [None]) @ replicate (length xs) None @ post)"
    by (rule Cons.IH)
  then show ?case by (simp add: replicate_app_Cons_same)
qed

lemma uninitialized_loop_eq:
  "uninitialized_loop et c (length sp) (length xs) (length dp) (length dp + length ys)
     (sp @ map Some xs @ ss, dp @ map Some ys @ replicate (length xs) None @ ds, fs) =
   (if may_throw et c \<and> fault_in (length xs) fs
    then Thrown (sp @ map Some (map (source_after et c) (take (first_fault fs) xs) @ drop (first_fault fs) xs) @ ss,
                 dp @ replicate (length ys + length xs) None @ ds,
                 drop (Suc (first_fault fs)) fs)
    else Returned () (sp @ map Some (map (source_after et c) xs) @ ss,
                      dp @ map Some (ys @ xs) @ ds,
                      if may_throw et c then drop (length xs) fs else fs))"
proof (induction xs arbitrary: sp ys fs)
  case Nil
  then show ?case by simp
next
  case (Cons x xs)
  show ?case
  proof (cases "may_throw et c \<and> throws fs")
    case True
    then obtain fs' where fs: "fs = True # fs'"
      by (cases fs) auto
    have "destroy_n (dp @ map Some ys @ (replicate (length (x # xs)) None @ ds)) (length dp) (length ys) =
          Some (dp @ replicate (length ys) None @ (replicate (length (x # xs)) None @ ds))"
      by (rule destroy_n_live)
    with True fs show ?thesis
      by (simp add: replicate_add [symmetric] del: replicate.simps)
  next
    case False
    let ?fs' = "after_step (may_throw et c) fs"
    have step: "uninitialized_loop et c (length sp) (length (x # xs)) (length dp) (length dp + length ys)
            (sp @ map Some (x # xs) @ ss, dp @ map Some ys @ replicate (length (x # xs)) None @ ds, fs) =
          uninitialized_loop et c (length (sp @ [Some (source_after et c x)])) (length xs) (length dp)
            (length dp + length (ys @ [x]))
            ((sp @ [Some (source_after et c x)]) @ map Some xs @ ss,
             dp @ map Some (ys @ [x]) @ replicate (length xs) None @ ds, ?fs')"
      using False by (auto simp: list_update_append)
    show ?thesis
    proof (cases "may_throw et c")
      case mt: True
      with False have nt: "\<not> throws fs" by simp
      show ?thesis
      proof (cases fs)
        case Nil
        then show ?thesis unfolding step Cons.IH using mt by (simp add: after_step_def)
      next
        case (Cons b fs')
        with nt have "b = False" by simp
        with Cons show ?thesis unfolding step Cons.IH using mt by (simp add: after_step_def)
      qed
    next
      case nmt: False
      then show ?thesis unfolding step Cons.IH by (simp add: after_step_def)
    qed
  qed
qed

lemma value_construct_loop_eq:
  "value_construct_loop et (length dp) (length dp + length ys) n
     (dp @ map Some ys @ replicate n None @ ds, fs) =
   (if fault_in n fs
    then Thrown (dp @ replicate (length ys + n) None @ ds, drop (Suc (first_fault fs)) fs)
    else Returned () (dp @ map Some (ys @ replicate n (value_initialized et)) @ ds, drop n fs))"
proof (induction n arbitrary: ys fs)
  case 0
  then show ?case by simp
next
  case (Suc n)
  show ?case
  proof (cases "throws fs")
    case True
    then obtain fs' where fs: "fs = True # fs'"
      by (cases fs) auto
    have "destroy_n (dp @ map Some ys @ (replicate (Suc n) None @ ds)) (length dp) (length ys) =
          Some (dp @ replicate (length ys) None @ (replicate (Suc n) None @ ds))"
      by (rule destroy_n_live)
    with True fs show ?thesis
      by (simp add: replicate_add [symmetric] del: replicate.simps)
  next
    case False
    have step: "value_construct_loop et (length dp) (length dp + length ys) (Suc n)
            (dp @ map Some ys @ replicate (Suc n) None @ ds, fs) =
          value_construct_loop et (length dp) (length dp + length (ys @ [value_initialized et])) n
            (dp @ map Some (ys @ [value_initialized et]) @ replicate n None @ ds, tl fs)"
      using False by (auto simp: list_update_append)
    show ?thesis
    proof (cases fs)
      case Nil
      then show ?thesis unfolding step Suc.IH by (simp add: replicate_app_Cons_same)
    next
      case (Cons b fs')
      with False have "b = False" by simp
      with Cons show ?thesis unfolding step Suc.IH by (simp add: replicate_app_Cons_same)
    qed
  qed
qed

lemma copy_n_eq:
  "length ys = length xs \<Longrightarrow>
   copy_n (sp @ map Some xs @ ss) (length sp) (length xs) (length dp)
     (dp @ map Some ys @ ds, fs) =
   (if fault_in (length xs) fs
    then Thrown (dp @ map Some (take (first_fault fs) xs @ drop (first_fault fs) ys) @ ds,
                 drop (Suc (first_fault fs)) fs)
    else Returned () (dp @ map Some xs @ ds, drop (length xs) fs))"
proof (induction xs arbitrary: ys sp dp fs)
  case Nil
  then show ?case by simp
next
  case (Cons x xs)
  then obtain y ys' where ys: "ys = y # ys'" "length ys' = length xs"
    by (cases ys) auto
  show ?case
  proof (cases "throws fs")
    case True
    then obtain fs' where fs: "fs = True # fs'"
      by (cases fs) auto
    with ys show ?thesis by simp
  next
    case False
    have step: "copy_n (sp @ map Some (x # xs) @ ss) (length sp) (length (x # xs)) (length dp)
            (dp @ map Some ys @ ds, fs) =
          copy_n ((sp @ [Some x]) @ map Some xs @ ss) (length (sp @ [Some x])) (length xs)
            (length (dp @ [Some x])) ((dp @ [Some x]) @ map Some ys' @ ds, tl fs)"
      using False ys by (auto simp: list_update_append)
    show ?thesis
    proof (cases fs)
      case Nil
      then show ?thesis unfolding step Cons.IH [OF ys(2)] using ys by simp
    next
      case (Cons b fs')
      with False have "b = False" by simp
      with Cons show ?thesis unfolding step Cons.IH [OF ys(2)] using ys by simp
    qed
  qed
qed

lemma move_range_eq:
  "move_range et (Suc (length pre)) (length xs) (length pre)
     (pre @ Some y # map Some xs @ post, fs) =
   (if fault_in (length xs) fs
    then Thrown (pre @ map Some (take (first_fault fs) xs @
                   [last (y # map (moved_from et) (take (first_fault fs) xs))] @
                   drop (first_fault fs) xs) @ post,
                 drop (Suc (first_fault fs)) fs)
    else Returned (length pre + length xs)
           (pre @ map Some (xs @ [last (y # map (moved_from et) xs)]) @ post, drop (length xs) fs))"
proof (induction xs arbitrary: pre y fs)
  case Nil
  then show ?case by simp
next
  case (Cons x xs)
  show ?case
  proof (cases "throws fs")
    case True
    then obtain fs' where fs: "fs = True # fs'"
      by (cases fs) auto
    have "read (pre @ Some y # Some x # map Some xs @ post) (Suc (length pre)) = Some x"
      using read_mid [of "pre @ [Some y]" x "map Some xs @ post"] by simp
    with fs show ?thesis by simp
  next
    case False
    have r: "read (pre @ Some y # Some x # map Some xs @ post) (Suc (length pre)) = Some x"
      using read_mid [of "pre @ [Some y]" x "map Some xs @ post"] by simp
    have step: "move_range et (Suc (length pre)) (length (x # xs)) (length pre)
            (pre @ Some y # map Some (x # xs) @ post, fs) =
          move_range et (Suc (length (pre @ [Some x]))) (length xs) (length (pre @ [Some x]))
            ((pre @ [Some x]) @ Some (moved_from et x) # map Some xs @ post, tl fs)"
      using False r by (simp add: list_update_append)
    show ?thesis
    proof (cases fs)
      case Nil
      then show ?thesis unfolding step Cons.IH by simp
    next
      case (Cons b fs')
      with False have "b = False" by simp
      with Cons show ?thesis unfolding step Cons.IH by simp
    qed
  qed
qed

lemma hd_map_snoc: "hd (map f (zs @ [x]) @ [y]) = hd (map f zs @ [f x])"
  by (cases zs) simp_all

lemma move_backward_eq:
  "move_backward et (length xs) (length pre + length xs) (Suc (length pre + length xs))
     (pre @ map Some xs @ Some y # post, fs) =
   (if fault_in (length xs) fs
    then Thrown (pre @ map Some (take (length xs - first_fault fs) xs @
                   [hd (map (moved_from et) (drop (length xs - first_fault fs) xs) @ [y])] @
                   drop (length xs - first_fault fs) xs) @ post,
                 drop (Suc (first_fault fs)) fs)
    else Returned (Suc (length pre))
           (pre @ map Some (hd (map (moved_from et) xs @ [y]) # xs) @ post, drop (length xs) fs))"
proof (induction xs arbitrary: y post fs rule: rev_induct)
  case Nil
  then show ?case by simp
next
  case (snoc x xs)
  have r1: "read (pre @ map Some (xs @ [x]) @ Some y # post) (length pre + length xs) = Some x"
    using read_mid [of "pre @ map Some xs" x "Some y # post"] by simp
  have r2: "read (pre @ map Some (xs @ [x]) @ Some y # post) (Suc (length pre + length xs)) = Some y"
    using read_mid [of "pre @ map Some xs @ [Some x]" y post] by simp
  show ?case
  proof (cases "throws fs")
    case True
    then obtain fs' where fs: "fs = True # fs'"
      by (cases fs) auto
    with r1 r2 show ?thesis by simp
  next
    case False
    have upd: "(pre @ map Some (xs @ [x]) @ Some y # post)
                 [Suc (length pre + length xs) := Some x, length pre + length xs := Some (moved_from et x)] =
               pre @ map Some xs @ Some (moved_from et x) # (Some x # post)"
      using list_update_length [of "pre @ map Some xs @ [Some x]" "Some y" post "Some x"]
        list_update_length [of "pre @ map Some xs" "Some x" "Some x # post" "Some (moved_from et x)"]
      by simp
    have step: "move_backward et (length (xs @ [x])) (length pre + length (xs @ [x]))
            (Suc (length pre + length (xs @ [x]))) (pre @ map Some (xs @ [x]) @ Some y # post, fs) =
          move_backward et (length xs) (length pre + length xs) (Suc (length pre + length xs))
            (pre @ map Some xs @ Some (moved_from et x) # (Some x # post), tl fs)"
      using False r1 r2 upd by simp
    have hd1: "hd (map (moved_from et) (zs @ [x]) @ [y]) = hd (map (moved_from et) zs @ [moved_from et x])"
      for zs by (rule hd_map_snoc)
    show ?thesis
    proof (cases fs)
      case Nil
      then show ?thesis unfolding step snoc.IH using hd1 [of xs] by simp
    next
      case (Cons b fs')
      with False have b: "b = False" by simp
      have k: "length xs - first_fault fs' \<le> length xs" by simp
      show ?thesis unfolding step snoc.IH
        using Cons b hd1 [of xs] hd1 [of "drop (length xs - first_fault fs') xs"] k
        by simp
    qed
  qed
qed

lemma invar_shape:
  assumes "invar v"
  shows "m_data v = map Some (elems v) @ replicate (Capacity v - m_size v) None"
    and "length (elems v) = m_size v"
proof -
  let ?n = "m_size v" and ?d = "m_data v"
  from assms have le: "?n \<le> length ?d"
    and live: "list_all (\<lambda>sl. sl \<noteq> None) (take ?n ?d)"
    and dead: "list_all (\<lambda>sl. sl = None) (drop ?n ?d)"
    by (simp_all add: invar_def)
  from live have "map Some (map the (take ?n ?d)) = take ?n ?d"
    by (induction "take ?n ?d" arbitrary: ) (auto simp: list_all_iff map_idI)
  moreover from dead have "drop ?n ?d = replicate (length ?d - ?n) None"
    by (auto simp: list_all_iff intro!: replicate_eqI)
  ultimately have "map Some (elems v) @ replicate (Capacity v - ?n) None = take ?n ?d @ drop ?n ?d"
    by (simp add: elems_def Capacity_def)
  then show "m_data v = map Some (elems v) @ replicate (Capacity v - m_size v) None"
    by simp
  from le show "length (elems v) = m_size v"
    by (simp add: elems_def)
qed

lemma invar_of_shape:
  assumes "m_data v = map Some xs @ replicate k None" and "m_size v = length xs"
  shows "invar v" and "elems v = xs" and "Capacity v = length xs + k"
  using assms by (simp_all add: invar_def elems_def Capacity_def list_all_iff comp_def)

lemma ShiftDataToNewMemory_eq:
  "ShiftDataToNewMemory et (sp @ map Some xs @ ss) (length sp) (length xs)
     (dp @ replicate (length xs) None @ ds) (length dp) fs =
   (if may_throw et (transfer_ctor et) \<and> fault_in (length xs) fs
    then Thrown (sp @ map Some (partially et (transfer_ctor et) (first_fault fs) xs) @ ss,
                 dp @ replicate (length xs) None @ ds,
                 drop (Suc (first_fault fs)) fs)
    else Returned () (sp @ map Some (map (source_after et (transfer_ctor et)) xs) @ ss,
                      dp @ map Some xs @ ds,
                      consumed et (transfer_ctor et) (length xs) fs))"
proof -
  have "ShiftDataToNewMemory et (sp @ map Some xs @ ss) (length sp) (length xs)
          (dp @ replicate (length xs) None @ ds) (length dp) fs =
        uninitialized_loop et (transfer_ctor et) (length sp) (length xs) (length dp)
          (length dp + length ([] :: 'a list))
          (sp @ map Some xs @ ss, dp @ map Some [] @ replicate (length xs) None @ ds, fs)"
    by (simp add: ShiftDataToNewMemory_def transfer_ctor_def uninitialized_move_n_def
        uninitialized_copy_n_def)
  then show ?thesis
    unfolding uninitialized_loop_eq by (simp add: partially_def consumed_def)
qed

lemma first_fault_less: "fault_in n fs \<Longrightarrow> first_fault fs < n"
proof (induction fs arbitrary: n)
  case Nil
  then show ?case by simp
next
  case (Cons b fs)
  then show ?case by (cases n; cases b) auto
qed

lemma partially_take:
  "j \<le> k \<Longrightarrow> partially et c j (take k xs) @ drop k xs = partially et c j xs"
  by (simp add: partially_def min_def drop_take)
    (metis append_take_drop_id drop_drop drop_take le_add_diff_inverse2 add.commute)

lemma Reserve_eq:
  assumes "length xs + k < new_capacity"
  shows "Reserve et new_capacity
           \<lparr>vec = \<lparr>m_data = map Some xs @ replicate k None, m_size = length xs\<rparr>,
            faults = fs, released = rel\<rparr> =
         (if throws fs then
            Thrown \<lparr>vec = \<lparr>m_data = map Some xs @ replicate k None, m_size = length xs\<rparr>,
                    faults = tl fs, released = rel\<rparr>
          else if may_throw et (transfer_ctor et) \<and> fault_in (length xs) (tl fs) then
            Thrown \<lparr>vec = \<lparr>m_data = map Some (partially et (transfer_ctor et) (first_fault (tl fs)) xs) @
                             replicate k None, m_size = length xs\<rparr>,
                    faults = drop (Suc (first_fault (tl fs))) (tl fs),
                    released = rel @ [replicate new_capacity None]\<rparr>
          else
            Returned () \<lparr>vec = \<lparr>m_data = map Some xs @ replicate (new_capacity - length xs) None,
                                  m_size = length xs\<rparr>,
                         faults = consumed et (transfer_ctor et) (length xs) (tl fs),
                         released = rel @ [replicate (length xs + k) None]\<rparr>)"
proof -
  have new: "replicate new_capacity None =
             [] @ replicate (length xs) None @ replicate (new_capacity - length xs) (None :: 'a slot)"
    using assms by (simp add: replicate_add [symmetric])
  have shift: "ShiftDataToNewMemory et (map Some xs @ replicate k None) 0 (length xs)
                 (replicate new_capacity None) 0 (tl fs) =
               (if may_throw et (transfer_ctor et) \<and> fault_in (length xs) (tl fs)
                then Thrown (map Some (partially et (transfer_ctor et) (first_fault (tl fs)) xs) @ replicate k None,
                             replicate new_capacity None, drop (Suc (first_fault (tl fs))) (tl fs))
                else Returned () (map Some (map (source_after et (transfer_ctor et)) xs) @ replicate k None,
                                  map Some xs @ replicate (new_capacity - length xs) None,
                                  consumed et (transfer_ctor et) (length xs) (tl fs)))"
    using ShiftDataToNewMemory_eq [of et "[]" xs "replicate k None" "[]"
        "replicate (new_capacity - length xs) None" "tl fs"]
    unfolding new [symmetric] by simp
  have destroy: "destroy_n (map Some (map (source_after et (transfer_ctor et)) xs) @ replicate k None) 0 (length xs) =
                 Some (replicate (length xs + k) None)"
    using destroy_n_live [of "[]" "map (source_after et (transfer_ctor et)) xs" "replicate k None"]
    by (simp add: replicate_add)
  from assms show ?thesis
    by (simp add: Reserve_def Capacity_def RawMemory_new_def shift destroy del: map_map)
qed

lemma Reserve_noop:
  "new_capacity \<le> Capacity (vec s) \<Longrightarrow> Reserve et new_capacity s = Returned () s"
  by (simp add: Reserve_def)

lemma ShiftDataToNewMemory_cases:
  assumes "old_buf = sp @ map Some xs @ ss" and "new_buf = dp @ replicate (length xs) None @ ds"
    and "first = length sp" and "count = length xs" and "d_first = length dp"
  shows "ShiftDataToNewMemory et old_buf first count new_buf d_first fs =
   (if may_throw et (transfer_ctor et) \<and> fault_in (length xs) fs
    then Thrown (sp @ map Some (partially et (transfer_ctor et) (first_fault fs) xs) @ ss,
                 new_buf, drop (Suc (first_fault fs)) fs)
    else Returned () (sp @ map Some (map (source_after et (transfer_ctor et)) xs) @ ss,
                      dp @ map Some xs @ ds,
                      consumed et (transfer_ctor et) (length xs) fs))"
  unfolding assms ShiftDataToNewMemory_eq by simp

lemma map_Some_split: "map Some xs = map Some (take i xs) @ map Some (drop i xs)"
  by (simp add: map_append [symmetric] del: map_append)

lemma replicate_update:
  "i < n \<Longrightarrow> (replicate n y)[i := x] = replicate i y @ x # replicate (n - Suc i) y"
  by (induction n arbitrary: i) (auto simp: Suc_diff_Suc split: nat.splits)

lemma replicate_mid:
  "i < n \<Longrightarrow> replicate i y @ y # replicate (n - Suc i) y = replicate n y"
  by (subst replicate_update [symmetric]) (auto simp: list_eq_iff_nth_eq nth_list_update)

lemma Emplace_reallocate_eq:
  assumes "offset \<le> length xs" and "arg_value (map Some xs) a = Some x"
  shows "Emplace_reallocate et offset a
           \<lparr>vec = \<lparr>m_data = map Some xs, m_size = length xs\<rparr>, faults = fs, released = rel\<rparr> =
         (let c = transfer_ctor et; N = new_capacity_for (length xs);
              fs2 = tl (tl fs); fs3 = consumed et c offset fs2 in
          if throws fs then
            Thrown \<lparr>vec = \<lparr>m_data = map Some xs, m_size = length xs\<rparr>, faults = tl fs, released = rel\<rparr>
          else if throws (tl fs) then
            Thrown \<lparr>vec = \<lparr>m_data = map Some xs, m_size = length xs\<rparr>, faults = fs2,
                    released = rel @ [replicate N None]\<rparr>
          else if may_throw et c \<and> fault_in offset fs2 then
            Thrown \<lparr>vec = \<lparr>m_data = map Some (partially et c (first_fault fs2) xs), m_size = length xs\<rparr>,
                    faults = drop (Suc (first_fault fs2)) fs2,
                    released = rel @ [replicate N None]\<rparr>
          else if may_throw et c \<and> fault_in (length xs - offset) fs3 then
            Thrown \<lparr>vec = \<lparr>m_data = map Some (partially et c (offset + first_fault fs3) xs),
                            m_size = length xs\<rparr>,
                    faults = drop (Suc (first_fault fs3)) fs3,
                    released = rel @ [replicate N None]\<rparr>
          else
            Returned () \<lparr>vec = \<lparr>m_data = map Some (take offset xs @ x # drop offset xs) @
                                    replicate (N - Suc (length xs)) None, m_size = length xs\<rparr>,
                         faults = consumed et c (length xs - offset) fs3,
                         released = rel @ [replicate (length xs) None]\<rparr>)"
proof -
  let ?c = "transfer_ctor et" and ?N = "new_capacity_for (length xs)"
  let ?fs2 = "tl (tl fs)"
  let ?fs3 = "consumed et ?c offset ?fs2"
  let ?sa = "source_after et ?c"
  let ?nd1 = "replicate offset None @ Some x # replicate (?N - Suc offset) None"
  have "length xs < ?N"
    by (cases xs) (simp_all add: new_capacity_for_def)
  with assms(1) have N: "length xs < ?N" "offset < ?N"
    by simp_all
  have lt: "length (take offset xs) = offset" "length (drop offset xs) = length xs - offset"
    using assms(1) by simp_all
  have nd1: "(replicate ?N None)[offset := Some x] = ?nd1"
    using N by (simp add: replicate_update)
  have tail: "replicate (?N - Suc offset) None =
              replicate (length xs - offset) None @ replicate (?N - Suc (length xs)) (None :: 'a slot)"
    using N assms(1) by (simp add: replicate_add [symmetric])
  have shift1: "ShiftDataToNewMemory et (map Some xs) 0 offset ?nd1 0 ?fs2 =
     (if may_throw et ?c \<and> fault_in offset ?fs2
      then Thrown (map Some (partially et ?c (first_fault ?fs2) xs), ?nd1, drop (Suc (first_fault ?fs2)) ?fs2)
      else Returned () (map Some (map ?sa (take offset xs)) @ map Some (drop offset xs),
                        map Some (take offset xs) @ Some x # replicate (?N - Suc offset) None, ?fs3))"
  proof -
    have p: "partially et ?c (first_fault ?fs2) xs =
             partially et ?c (first_fault ?fs2) (take offset xs) @ drop offset xs"
      if "fault_in offset ?fs2"
      using first_fault_less [OF that] by (simp add: partially_take)
    have "ShiftDataToNewMemory et (map Some xs) 0 offset ?nd1 0 ?fs2 =
     (if may_throw et ?c \<and> fault_in (length (take offset xs)) ?fs2
      then Thrown ([] @ map Some (partially et ?c (first_fault ?fs2) (take offset xs)) @ map Some (drop offset xs),
                   ?nd1, drop (Suc (first_fault ?fs2)) ?fs2)
      else Returned () ([] @ map Some (map ?sa (take offset xs)) @ map Some (drop offset xs),
                        [] @ map Some (take offset xs) @ Some x # replicate (?N - Suc offset) None,
                        consumed et ?c (length (take offset xs)) ?fs2))"
      by (rule ShiftDataToNewMemory_cases)
        (use assms(1) in \<open>simp_all add: map_Some_split [symmetric]\<close>)
    also have "\<dots> = (if may_throw et ?c \<and> fault_in offset ?fs2
      then Thrown (map Some (partially et ?c (first_fault ?fs2) xs), ?nd1, drop (Suc (first_fault ?fs2)) ?fs2)
      else Returned () (map Some (map ?sa (take offset xs)) @ map Some (drop offset xs),
                        map Some (take offset xs) @ Some x # replicate (?N - Suc offset) None, ?fs3))"
      using p assms(1) by (cases "fault_in offset ?fs2") simp_all
    finally show ?thesis .
  qed
  have destroy1: "destroy_n ?nd1 offset (Suc 0) = Some (replicate ?N None)"
  proof -
    have "destroy_n (replicate offset None @ map Some [x] @ replicate (?N - Suc offset) None)
            (length (replicate offset (None :: 'a slot))) (length [x]) =
          Some (replicate offset None @ replicate (length [x]) None @ replicate (?N - Suc offset) None)"
      by (rule destroy_n_live)
    moreover have "replicate offset None @ None # replicate (?N - Suc offset) None =
                   replicate ?N (None :: 'a slot)"
      using N by (simp add: replicate_mid)
    ultimately show ?thesis by simp
  qed
  let ?old1 = "map Some (map ?sa (take offset xs)) @ map Some (drop offset xs)"
  let ?nd2 = "map Some (take offset xs) @ Some x # replicate (?N - Suc offset) None"
  have shift2: "ShiftDataToNewMemory et ?old1 offset (length xs - offset) ?nd2 (Suc offset) ?fs3 =
     (if may_throw et ?c \<and> fault_in (length xs - offset) ?fs3
      then Thrown (map Some (partially et ?c (offset + first_fault ?fs3) xs), ?nd2,
                   drop (Suc (first_fault ?fs3)) ?fs3)
      else Returned () (map Some (map ?sa xs),
                        map Some (take offset xs @ x # drop offset xs) @ replicate (?N - Suc (length xs)) None,
                        consumed et ?c (length xs - offset) ?fs3))"
  proof -
    have p: "partially et ?c (offset + j) xs =
             map ?sa (take offset xs) @ partially et ?c j (drop offset xs)" for j
    proof -
      have "drop (offset + j) xs = drop j (drop offset xs)"
        by (simp add: add.commute)
      moreover have "take (offset + j) xs = take offset xs @ take j (drop offset xs)"
        by (rule take_add)
      ultimately show ?thesis
        by (simp add: partially_def)
    qed
    have m: "map ?sa xs = map ?sa (take offset xs) @ map ?sa (drop offset xs)"
      by (simp add: map_append [symmetric] del: map_append)
    have "ShiftDataToNewMemory et ?old1 offset (length xs - offset) ?nd2 (Suc offset) ?fs3 =
     (if may_throw et ?c \<and> fault_in (length (drop offset xs)) ?fs3
      then Thrown (map Some (map ?sa (take offset xs)) @
                     map Some (partially et ?c (first_fault ?fs3) (drop offset xs)) @ [],
                   ?nd2, drop (Suc (first_fault ?fs3)) ?fs3)
      else Returned () (map Some (map ?sa (take offset xs)) @
                          map Some (map ?sa (drop offset xs)) @ [],
                        (map Some (take offset xs) @ [Some x]) @ map Some (drop offset xs) @
                          replicate (?N - Suc (length xs)) None,
                        consumed et ?c (length (drop offset xs)) ?fs3))"
      by (rule ShiftDataToNewMemory_cases) (use assms(1) in \<open>simp_all add: tail\<close>)
    also have "\<dots> = (if may_throw et ?c \<and> fault_in (length xs - offset) ?fs3
      then Thrown (map Some (partially et ?c (offset + first_fault ?fs3) xs), ?nd2,
                   drop (Suc (first_fault ?fs3)) ?fs3)
      else Returned () (map Some (map ?sa xs),
                        map Some (take offset xs @ x # drop offset xs) @ replicate (?N - Suc (length xs)) None,
                        consumed et ?c (length xs - offset) ?fs3))"
      unfolding p m using assms(1) by simp
    finally show ?thesis .
  qed
  have destroy2: "destroy_n ?nd2 0 (Suc offset) = Some (replicate ?N None)"
  proof -
    have "destroy_n ([] @ map Some (take offset xs @ [x]) @ replicate (?N - Suc offset) None)
            (length ([] :: 'a slot list)) (length (take offset xs @ [x])) =
          Some ([] @ replicate (length (take offset xs @ [x])) None @ replicate (?N - Suc offset) None)"
      by (rule destroy_n_live)
    moreover have "replicate (Suc offset) None @ replicate (?N - Suc offset) None =
                   replicate ?N (None :: 'a slot)"
      using N by (simp add: replicate_add [symmetric] del: replicate.simps)
    ultimately show ?thesis using assms(1) by simp
  qed
  have destroy3: "destroy_n (map Some (map ?sa xs)) 0 (length xs) = Some (replicate (length xs) None)"
    using destroy_n_live [of "[]" "map ?sa xs" "[]"] by simp
  have construct: "construct_at (map Some xs) a (replicate ?N None) offset (tl fs) =
     (if throws (tl fs) then Thrown (replicate ?N None, ?fs2) else Returned () (?nd1, ?fs2))"
    using assms(2) N by (simp add: construct_at_def nd1)
  have alloc: "RawMemory_new ?N fs =
     (if throws fs then (None, tl fs) else (Some (replicate ?N None), tl fs))"
    using N by (simp add: RawMemory_new_def)
  show ?thesis
    unfolding Emplace_reallocate_def Let_def new_capacity_for_def [symmetric]
    by (simp add: alloc construct shift1 shift2 destroy1 destroy2 destroy3
        del: map_map map_append destroy_n.simps)
qed

lemma fault_in_add: "fault_in (a + b) fs = (fault_in a fs \<or> fault_in b (drop a fs))"
  by (auto simp: fault_in_def take_add)

lemma fault_in_Suc: "fault_in (Suc n) fs = (throws fs \<or> fault_in n (tl fs))"
  by (cases fs) simp_all

lemma fault_in_snoc: "fault_in (n + 1) fs = (fault_in n fs \<or> throws (drop n fs))"
  unfolding fault_in_add by (cases "drop n fs") simp_all

lemma drop_snoc: "drop (n + 1) fs = tl (drop n fs)"
  by (simp add: drop_Suc tl_drop)

lemma drop_Suc_tl: "drop (Suc n) fs = drop n (tl fs)"
  by (cases fs) simp_all

lemma no_faults_fault_in: "no_faults fs \<Longrightarrow> \<not> fault_in n fs"
  by (auto simp: no_faults_def fault_in_def list_all_iff dest: in_set_takeD)

lemma no_faults_throws: "no_faults fs \<Longrightarrow> \<not> throws fs"
  by (cases fs) (simp_all add: no_faults_def)

lemma no_faults_tl: "no_faults fs \<Longrightarrow> no_faults (tl fs)"
  by (cases fs) (simp_all add: no_faults_def)

lemma no_faults_drop: "no_faults fs \<Longrightarrow> no_faults (drop n fs)"
  by (auto simp: no_faults_def list_all_iff dest: in_set_dropD)

lemma Emplace_in_place_end:
  assumes "arg_value (map Some xs @ replicate (Suc k) None) a = Some x"
  shows "Emplace_in_place et (length xs) a
           \<lparr>vec = \<lparr>m_data = map Some xs @ replicate (Suc k) None, m_size = length xs\<rparr>,
            faults = fs, released = rel\<rparr> =
         (if throws fs then
            Thrown \<lparr>vec = \<lparr>m_data = map Some xs @ replicate (Suc k) None, m_size = length xs\<rparr>,
                    faults = tl fs, released = rel\<rparr>
          else
            Returned () \<lparr>vec = \<lparr>m_data = map Some (xs @ [x]) @ replicate k None, m_size = length xs\<rparr>,
                         faults = tl fs, released = rel\<rparr>)"
  using assms by (simp add: Emplace_in_place_def construct_at_def list_update_append)

lemma construct_at_moved_eq:
  "construct_at_moved et (pre @ Some z # None # post) (Suc (length pre)) (length pre) fs =
   (if may_throw et MoveCtor \<and> throws fs then Thrown (pre @ Some z # None # post, tl fs)
    else Returned () (pre @ Some (moved_from et z) # Some z # post,
                      after_step (may_throw et MoveCtor) fs))"
  by (simp add: construct_at_moved_def list_update_append)

lemma assign_at_eq:
  "assign_at (pre @ Some y # post) (length pre) x fs =
   (if throws fs then Thrown (pre @ Some y # post, tl fs)
    else Returned () (pre @ Some x # post, tl fs))"
  by (simp add: assign_at_def)

lemma move_backward_cases:
  assumes "buf = pre @ map Some xs @ Some y # post" and "count = length xs"
    and "last_it = length pre + length xs" and "d_last = Suc last_it"
  shows "move_backward et count last_it d_last (buf, fs) =
   (if fault_in (length xs) fs
    then Thrown (pre @ map Some (take (length xs - first_fault fs) xs @
                   [hd (map (moved_from et) (drop (length xs - first_fault fs) xs) @ [y])] @
                   drop (length xs - first_fault fs) xs) @ post,
                 drop (Suc (first_fault fs)) fs)
    else Returned (Suc (length pre))
           (pre @ map Some (hd (map (moved_from et) xs @ [y]) # xs) @ post, drop (length xs) fs))"
  unfolding assms by (rule move_backward_eq)

lemma move_range_cases:
  assumes "buf = pre @ Some y # map Some xs @ post" and "first = Suc (length pre)"
    and "count = length xs" and "d_first = length pre"
  shows "move_range et first count d_first (buf, fs) =
   (if fault_in (length xs) fs
    then Thrown (pre @ map Some (take (first_fault fs) xs @
                   [last (y # map (moved_from et) (take (first_fault fs) xs))] @
                   drop (first_fault fs) xs) @ post,
                 drop (Suc (first_fault fs)) fs)
    else Returned (length pre + length xs)
           (pre @ map Some (xs @ [last (y # map (moved_from et) xs)]) @ post, drop (length xs) fs))"
  unfolding assms by (rule move_range_eq)

lemma Emplace_in_place_middle:
  assumes "offset \<le> length ys"
    and "arg_value (map Some (ys @ [z]) @ replicate (Suc k) None) a = Some x"
  shows "(fault_in (in_place_steps et (Suc (length ys)) offset) fs \<longrightarrow>
          (\<exists>s'. Emplace_in_place et offset a
             \<lparr>vec = \<lparr>m_data = map Some (ys @ [z]) @ replicate (Suc k) None, m_size = Suc (length ys)\<rparr>,
              faults = fs, released = rel\<rparr> = Thrown s')) \<and>
         (\<not> fault_in (in_place_steps et (Suc (length ys)) offset) fs \<longrightarrow>
          Emplace_in_place et offset a
             \<lparr>vec = \<lparr>m_data = map Some (ys @ [z]) @ replicate (Suc k) None, m_size = Suc (length ys)\<rparr>,
              faults = fs, released = rel\<rparr> =
          Returned () \<lparr>vec = \<lparr>m_data = map Some (take offset ys @ x # drop offset ys @ [z]) @ replicate k None,
                               m_size = Suc (length ys)\<rparr>,
                       faults = drop (in_place_steps et (Suc (length ys)) offset) fs, released = rel\<rparr>)"
proof -
  let ?mf = "moved_from et"
  let ?data = "map Some ys @ Some z # None # replicate k None"
  let ?mt = "may_throw et MoveCtor"
  let ?fs1 = "tl fs"
  let ?fs2 = "after_step ?mt ?fs1"
  let ?zs = "drop offset ys"
  let ?pre = "map Some (take offset ys)"
  let ?post = "Some z # replicate k None"
  let ?buf1 = "map Some ys @ Some (?mf z) # Some z # replicate k None"
  let ?fs3 = "drop (length ys - offset) ?fs2"
  let ?buf2 = "?pre @ Some (hd (map ?mf ?zs @ [?mf z])) # map Some ?zs @ ?post"
  have ne: "offset \<noteq> Suc (length ys)"
    using assms(1) by simp
  have moved: "construct_at_moved et ?data (Suc (length ys)) (length ys) ?fs1 =
     (if ?mt \<and> throws ?fs1 then Thrown (?data, tl ?fs1) else Returned () (?buf1, ?fs2))"
    using construct_at_moved_eq [of et "map Some ys" z "replicate k None" ?fs1] by simp
  have "\<exists>bt ft. move_backward et (length ys - offset) (length ys) (Suc (length ys)) (?buf1, ?fs2) =
     (if fault_in (length ys - offset) ?fs2 then Thrown (bt, ft) else Returned (Suc (length ?pre)) (?buf2, ?fs3))"
  proof -
    have "move_backward et (length ys - offset) (length ys) (Suc (length ys)) (?buf1, ?fs2) =
     (if fault_in (length ?zs) ?fs2
      then Thrown (?pre @ map Some (take (length ?zs - first_fault ?fs2) ?zs @
                     [hd (map ?mf (drop (length ?zs - first_fault ?fs2) ?zs) @ [?mf z])] @
                     drop (length ?zs - first_fault ?fs2) ?zs) @ ?post,
                   drop (Suc (first_fault ?fs2)) ?fs2)
      else Returned (Suc (length ?pre))
             (?pre @ map Some (hd (map ?mf ?zs @ [?mf z]) # ?zs) @ ?post, drop (length ?zs) ?fs2))"
      by (rule move_backward_cases) (use assms(1) map_Some_split [of ys offset] in \<open>simp_all\<close>)
    then show ?thesis by auto
  qed
  then obtain bt ft where bwd:
    "move_backward et (length ys - offset) (length ys) (Suc (length ys)) (?buf1, ?fs2) =
     (if fault_in (length ys - offset) ?fs2 then Thrown (bt, ft) else Returned (Suc (length ?pre)) (?buf2, ?fs3))"
    by blast
  have assign: "assign_at ?buf2 offset x ?fs3 =
     (if throws ?fs3 then Thrown (?buf2, tl ?fs3)
      else Returned () (?pre @ Some x # map Some ?zs @ ?post, tl ?fs3))"
    using assign_at_eq [of ?pre "hd (map ?mf ?zs @ [?mf z])" "map Some ?zs @ ?post" x ?fs3] assms(1)
    by simp
  have count: "in_place_steps et (Suc (length ys)) offset =
               (if nothrow_move_constructible et then Suc ((length ys - offset) + 1)
                else Suc (Suc ((length ys - offset) + 1)))"
    by (simp add: in_place_steps_def)
  have steps: "fault_in (in_place_steps et (Suc (length ys)) offset) fs =
               (throws fs \<or> ?mt \<and> throws ?fs1 \<or> fault_in (length ys - offset) ?fs2 \<or> throws ?fs3)"
    unfolding count
    by (cases "nothrow_move_constructible et")
      (simp_all only: fault_in_Suc fault_in_snoc may_throw_def after_step_def ctor.case
        if_True if_False simp_thms)
  have rest: "drop (in_place_steps et (Suc (length ys)) offset) fs = tl ?fs3"
    unfolding count
    by (cases "nothrow_move_constructible et")
      (simp_all only: drop_Suc_tl drop_snoc may_throw_def after_step_def ctor.case
        if_True if_False simp_thms)
  have val: "arg_value ?data a = Some x"
    using assms(2) by simp
  show ?thesis
    unfolding steps rest Emplace_in_place_def Let_def
    using ne val
    by (simp add: moved bwd assign)
qed

lemma Emplace_reallocate_returns:
  assumes "offset \<le> length xs" and "arg_value (map Some xs) a = Some x"
  shows "(fault_in (emplace_steps et (length xs) (length xs) offset) fs \<longrightarrow>
          (\<exists>s'. Emplace_reallocate et offset a
             \<lparr>vec = \<lparr>m_data = map Some xs, m_size = length xs\<rparr>, faults = fs, released = rel\<rparr> =
             Thrown s')) \<and>
         (\<not> fault_in (emplace_steps et (length xs) (length xs) offset) fs \<longrightarrow>
          Emplace_reallocate et offset a
             \<lparr>vec = \<lparr>m_data = map Some xs, m_size = length xs\<rparr>, faults = fs, released = rel\<rparr> =
          Returned () \<lparr>vec = \<lparr>m_data = map Some (take offset xs @ x # drop offset xs) @
                                    replicate (new_capacity_for (length xs) - Suc (length xs)) None,
                               m_size = length xs\<rparr>,
                       faults = drop (emplace_steps et (length xs) (length xs) offset) fs,
                       released = rel @ [replicate (length xs) None]\<rparr>)"
proof -
  let ?c = "transfer_ctor et"
  let ?fs2 = "tl (tl fs)"
  let ?fs3 = "consumed et ?c offset ?fs2"
  have n: "length xs = offset + (length xs - offset)"
    using assms(1) by simp
  have steps: "fault_in (emplace_steps et (length xs) (length xs) offset) fs =
     (throws fs \<or> throws (tl fs) \<or> may_throw et ?c \<and> fault_in offset ?fs2 \<or>
      may_throw et ?c \<and> fault_in (length xs - offset) ?fs3)"
  proof (cases "may_throw et ?c")
    case True
    have "fault_in (Suc (Suc (length xs))) fs =
          (throws fs \<or> throws (tl fs) \<or> fault_in (offset + (length xs - offset)) ?fs2)"
      unfolding n [symmetric] by (simp only: fault_in_Suc)
    with True show ?thesis
      by (simp add: emplace_steps_def consumed_def fault_in_add)
  next
    case False
    have "fault_in (Suc (Suc 0)) fs = (throws fs \<or> throws (tl fs))"
      by (simp only: fault_in_Suc fault_in_simps simp_thms)
    with False show ?thesis
      by (simp add: emplace_steps_def consumed_def numeral_2_eq_2)
  qed
  have rest: "drop (emplace_steps et (length xs) (length xs) offset) fs =
              consumed et ?c (length xs - offset) ?fs3"
  proof (cases "may_throw et ?c")
    case True
    have "drop (Suc (Suc (length xs))) fs = drop (offset + (length xs - offset)) ?fs2"
      unfolding n [symmetric] by (simp only: drop_Suc_tl)
    with True show ?thesis
      by (simp add: emplace_steps_def consumed_def add.commute)
  next
    case False
    have "drop (Suc (Suc 0)) fs = ?fs2"
      by (simp only: drop_Suc_tl drop_0)
    with False show ?thesis
      by (simp add: emplace_steps_def consumed_def numeral_2_eq_2)
  qed
  show ?thesis
    unfolding steps rest Emplace_reallocate_eq [OF assms] Let_def by auto
qed

lemma Emplace_cases:
  assumes "p \<le> length xs"
    and "arg_value (map Some xs @ replicate k None) a = Some x"
  shows "(fault_in (emplace_steps et (length xs) (length xs + k) p) fs \<longrightarrow>
          (\<exists>s'. Emplace et p a
             \<lparr>vec = \<lparr>m_data = map Some xs @ replicate k None, m_size = length xs\<rparr>,
              faults = fs, released = rel\<rparr> = Thrown s')) \<and>
         (\<not> fault_in (emplace_steps et (length xs) (length xs + k) p) fs \<longrightarrow>
          Emplace et p a
             \<lparr>vec = \<lparr>m_data = map Some xs @ replicate k None, m_size = length xs\<rparr>,
              faults = fs, released = rel\<rparr> =
          Returned p
            \<lparr>vec = \<lparr>m_data = map Some (take p xs @ x # drop p xs) @
                      replicate ((if k = 0 then new_capacity_for (length xs) else length xs + k) -
                                 Suc (length xs)) None,
                    m_size = Suc (length xs)\<rparr>,
             faults = drop (emplace_steps et (length xs) (length xs + k) p) fs,
             released = (if k = 0 then rel @ [replicate (length xs) None] else rel)\<rparr>)"
proof (cases k)
  case 0
  with assms have a: "arg_value (map Some xs) a = Some x"
    by simp
  show ?thesis
    using Emplace_reallocate_returns [OF assms(1) a, of et fs rel] assms(1) 0
    by (auto simp: Emplace_def Capacity_def)
next
  case (Suc k')
  show ?thesis
  proof (cases "p = length xs")
    case True
    have "emplace_steps et (length xs) (length xs + k) p = 1"
      using Suc True by (simp add: emplace_steps_def)
    moreover have "fault_in 1 fs = throws fs" "drop 1 fs = tl fs"
      by (cases fs; simp)+
    ultimately show ?thesis
      using Emplace_in_place_end [of xs k' a x et fs rel] assms(2) True Suc
      by (simp add: Emplace_def Capacity_def)
  next
    case False
    with assms(1) have "xs \<noteq> []" by auto
    then obtain ys z where xs: "xs = ys @ [z]"
      by (metis rev_exhaust)
    with False assms(1) have p: "p \<le> length ys"
      by simp
    have st: "emplace_steps et (Suc (length ys)) (Suc (Suc (length ys + k'))) p =
              in_place_steps et (Suc (length ys)) p"
      using False xs by (simp add: emplace_steps_def)
    show ?thesis
      using Emplace_in_place_middle [OF p, of z k' a x et fs rel] assms(2) False Suc p
      unfolding xs
      by (auto simp: Emplace_def Capacity_def st)
  qed
qed

lemma state_shape:
  assumes "invar (vec s)"
  shows "s = \<lparr>vec = \<lparr>m_data = map Some (elems (vec s)) @ replicate (Capacity (vec s) - m_size (vec s)) None,
                      m_size = length (elems (vec s))\<rparr>,
               faults = faults s, released = released s\<rparr>"
  using invar_shape [OF assms] by simp

lemma invar_le: "invar v \<Longrightarrow> m_size v \<le> Capacity v"
  by (simp add: invar_def Capacity_def)

lemma invar_stateE:
  assumes "invar (vec s)"
  obtains xs k fs rel where
    "s = \<lparr>vec = \<lparr>m_data = map Some xs @ replicate k None, m_size = length xs\<rparr>,
          faults = fs, released = rel\<rparr>"
  by (rule that [OF state_shape [OF assms]])

lemma invar_vectorE:
  assumes "invar v"
  obtains xs k where "v = \<lparr>m_data = map Some xs @ replicate k None, m_size = length xs\<rparr>"
  using invar_shape [OF assms] that [of "elems v" "Capacity v - m_size v"] by simp

lemma shape_facts:
  "invar \<lparr>m_data = map Some xs @ replicate k None, m_size = length xs\<rparr>"
  "elems \<lparr>m_data = map Some xs @ replicate k None, m_size = length xs\<rparr> = xs"
  "Capacity \<lparr>m_data = map Some xs @ replicate k None, m_size = length xs\<rparr> = length xs + k"
  "Size \<lparr>m_data = map Some xs @ replicate k None, m_size = length xs\<rparr> = length xs"
  by (simp_all add: invar_def elems_def Capacity_def Size_def list_all_iff)

section \<open>Reserve\<close>

text \<open>
  Claim C6. On a sequence that satisfies the invariant, \<open>Reserve(k)\<close> has no undefined
  behaviour; with \<open>k\<close> at most the capacity it returns and changes nothing; it returns
  whenever no step fails; and whenever it returns, the capacity is at least \<open>k\<close> and at least
  the capacity before, and the size and the element values are what they were.
\<close>

theorem Reserve_capacity_monotonic:
  assumes "invar (vec s)"
  shows "Reserve et k s \<noteq> Undefined \<and>
         (k \<le> Capacity (vec s) \<longrightarrow> Reserve et k s = Returned () s) \<and>
         (no_faults (faults s) \<longrightarrow> (\<exists>s'. Reserve et k s = Returned () s')) \<and>
         (\<forall>s'. Reserve et k s = Returned () s' \<longrightarrow>
            k \<le> Capacity (vec s') \<and> Capacity (vec s) \<le> Capacity (vec s') \<and>
            Size (vec s') = Size (vec s) \<and> elems (vec s') = elems (vec s) \<and> invar (vec s'))"
proof (cases "k \<le> Capacity (vec s)")
  case True
  then have "Reserve et k s = Returned () s"
    by (rule Reserve_noop)
  with True assms show ?thesis by auto
next
  case False
  from assms obtain xs j fs rel where
    s: "s = \<lparr>vec = \<lparr>m_data = map Some xs @ replicate j None, m_size = length xs\<rparr>,
             faults = fs, released = rel\<rparr>"
    by (rule invar_stateE)
  from False have lt: "length xs + j < k"
    by (simp add: s shape_facts)
  then have le: "length xs \<le> k"
    by simp
  note new = shape_facts [of xs "k - length xs"]
  have "no_faults fs \<Longrightarrow> \<not> throws fs \<and> \<not> fault_in (length xs) (tl fs)"
    by (simp add: no_faults_throws no_faults_fault_in no_faults_tl)
  then show ?thesis
    unfolding s Reserve_eq [OF lt]
    using lt le new by (auto simp: shape_facts)
qed

theorem Reserve_capacity_monotonic_witness:
  "invar (vec \<lparr>vec = two_of_three, faults = [], released = []\<rparr>) \<and>
   no_faults (faults \<lparr>vec = two_of_three, faults = [], released = []\<rparr>) \<and>
   Reserve trivial_type 5 \<lparr>vec = two_of_three, faults = [], released = []\<rparr> =
     Returned () \<lparr>vec = \<lparr>m_data = [Some 1, Some 2, None, None, None], m_size = 2\<rparr>,
                  faults = [], released = [[None, None, None]]\<rparr> \<and>
   (5::nat) \<le> Capacity \<lparr>m_data = [Some 1, Some 2, None, None, None :: nat slot], m_size = 2\<rparr> \<and>
   elems \<lparr>m_data = [Some 1, Some 2, None, None, None :: nat slot], m_size = 2\<rparr> = elems two_of_three"
proof -
  have h: "invar (vec \<lparr>vec = two_of_three, faults = [], released = []\<rparr>)"
    by (simp add: invar_def two_of_three_def)
  have r: "Reserve trivial_type 5 \<lparr>vec = two_of_three, faults = [], released = []\<rparr> =
     Returned () \<lparr>vec = \<lparr>m_data = [Some 1, Some 2, None, None, None], m_size = 2\<rparr>,
                  faults = [], released = [[None, None, None]]\<rparr>"
    by code_simp
  show ?thesis
    using h r Reserve_capacity_monotonic [OF h, of trivial_type 5]
    by (simp add: no_faults_def)
qed

section \<open>Insert and Emplace\<close>

lemma index_elems: "invar v \<Longrightarrow> i < m_size v \<Longrightarrow> index v i = Some (elems v ! i)"
proof -
  assume inv: "invar v" and i: "i < m_size v"
  from inv obtain xs k where v: "v = \<lparr>m_data = map Some xs @ replicate k None, m_size = length xs\<rparr>"
    by (rule invar_vectorE)
  with i show ?thesis
    by (simp add: index_def read_def elems_def nth_append)
qed

text \<open>
  Claim C3. On a sequence that satisfies the invariant, for a position \<open>p\<close> in
  \<open>[begin(), end()]\<close> and an argument with value \<open>x\<close>: \<open>Emplace\<close> (and \<open>Insert\<close>, which is
  \<open>Emplace\<close>) has no undefined behaviour and returns whenever no step fails. Whenever it
  returns, it returns \<open>p\<close>; the size is one more; the elements are the old ones before \<open>p\<close>,
  then \<open>x\<close>, then the old ones from \<open>p\<close> on, so that index \<open>p\<close> holds \<open>x\<close>, the indices below \<open>p\<close>
  hold what they held and each old element from \<open>p\<close> on is one index higher. When there was
  room, nothing is reallocated or released; and before the end, the steps that may throw are
  those of \<open>in_place_steps\<close>: the temporary, the move of the last element into the free slot,
  the move assignments of the shift and the move assignment of the temporary.
\<close>

theorem Emplace_inserts:
  assumes "invar (vec s)" and "p \<le> Size (vec s)" and "arg_value (m_data (vec s)) a = Some x"
  shows "Emplace et p a s \<noteq> Undefined \<and>
         Insert et p a s = Emplace et p a s \<and>
         (no_faults (faults s) \<longrightarrow> (\<exists>s'. Emplace et p a s = Returned p s')) \<and>
         (\<forall>r s'. Emplace et p a s = Returned r s' \<longrightarrow>
            r = p \<and> invar (vec s') \<and> Size (vec s') = Size (vec s) + 1 \<and>
            elems (vec s') = take p (elems (vec s)) @ x # drop p (elems (vec s)) \<and>
            index (vec s') p = Some x \<and>
            (\<forall>i<p. index (vec s') i = index (vec s) i) \<and>
            (\<forall>i. p \<le> i \<and> i < Size (vec s) \<longrightarrow> index (vec s') (i + 1) = index (vec s) i) \<and>
            (Size (vec s) < Capacity (vec s) \<longrightarrow>
               Capacity (vec s') = Capacity (vec s) \<and> released s' = released s \<and>
               (p < Size (vec s) \<longrightarrow>
                  faults s' = drop (in_place_steps et (Size (vec s)) p) (faults s))))"
proof -
  from assms(1) obtain xs k fs rel where
    s: "s = \<lparr>vec = \<lparr>m_data = map Some xs @ replicate k None, m_size = length xs\<rparr>,
             faults = fs, released = rel\<rparr>"
    by (rule invar_stateE)
  let ?v = "\<lparr>m_data = map Some xs @ replicate k None, m_size = length xs\<rparr>"
  let ?n = "emplace_steps et (length xs) (length xs + k) p"
  let ?K = "(if k = 0 then new_capacity_for (length xs) else length xs + k) - Suc (length xs)"
  let ?L = "take p xs @ x # drop p xs"
  let ?v' = "\<lparr>m_data = map Some ?L @ replicate ?K None, m_size = Suc (length xs)\<rparr>"
  let ?s' = "\<lparr>vec = ?v', faults = drop ?n fs, released = (if k = 0 then rel @ [replicate (length xs) None] else rel)\<rparr>"
  from assms(2) have p: "p \<le> length xs"
    by (simp add: s Size_def)
  from assms(3) have a: "arg_value (map Some xs @ replicate k None) a = Some x"
    by (simp add: s)
  note cases = Emplace_cases [OF p a, of et fs rel]
  have len: "length ?L = Suc (length xs)"
    using p by simp
  have inv': "invar ?v'" and el': "elems ?v' = ?L" and cap': "Capacity ?v' = length ?L + ?K"
    by (rule invar_of_shape [where xs = ?L and k = ?K]; simp add: len)+
  have old: "invar ?v" "elems ?v = xs" "Capacity ?v = length xs + k" "Size ?v = length xs"
    by (rule shape_facts)+
  have ix: "index ?v' i = Some (?L ! i)" if "i < Suc (length xs)" for i
    using index_elems [OF inv', of i] that el' by simp
  have ixo: "index ?v i = Some (xs ! i)" if "i < length xs" for i
    using index_elems [OF old(1), of i] that old(2) by simp
  have at_p: "index ?v' p = Some x"
    using ix [of p] p by (simp add: nth_append)
  have before: "index ?v' i = index ?v i" if "i < p" for i
    using ix [of i] ixo [of i] that p by (simp add: nth_append)
  have after: "index ?v' (i + 1) = index ?v i" if "p \<le> i" "i < length xs" for i
    using ix [of "i + 1"] ixo [of i] that p by (simp add: nth_append min_absorb2 Suc_diff_le)
  have steps: "k \<noteq> 0 \<Longrightarrow> p < length xs \<Longrightarrow> ?n = in_place_steps et (length xs) p"
    by (simp add: emplace_steps_def)
  have ret: "Emplace et p a s = Returned r s' \<Longrightarrow> r = p \<and> s' = ?s' \<and> \<not> fault_in ?n fs" for r s'
    using cases unfolding s by (cases "fault_in ?n fs") auto
  have nf: "no_faults (faults s) \<Longrightarrow> Emplace et p a s = Returned p ?s'"
    using cases no_faults_fault_in [of fs ?n] unfolding s by simp
  have def: "Emplace et p a s \<noteq> Undefined"
    using cases unfolding s by (cases "fault_in ?n fs") auto
  have size': "Size ?v' = Size ?v + 1"
    by (simp add: Size_def)
  have capk: "k \<noteq> 0 \<Longrightarrow> Capacity ?v' = Capacity ?v"
    using cap' len old(3) by simp
  show ?thesis
  proof (intro conjI allI impI)
    show "Emplace et p a s \<noteq> Undefined" by (rule def)
    show "Insert et p a s = Emplace et p a s" by (simp add: Insert_def)
    show "\<exists>s'. Emplace et p a s = Returned p s'" if "no_faults (faults s)"
      using nf [OF that] by blast
  next
    fix r s' assume "Emplace et p a s = Returned r s'"
    from ret [OF this] have r: "r = p" and s': "s' = ?s'" by simp_all
    show "r = p" by (rule r)
    show "invar (vec s')" using inv' by (simp add: s')
    show "Size (vec s') = Size (vec s) + 1" using size' by (simp add: s' s)
    show "elems (vec s') = take p (elems (vec s)) @ x # drop p (elems (vec s))"
      using el' old(2) by (simp add: s' s)
    show "index (vec s') p = Some x" using at_p by (simp add: s')
    show "index (vec s') i = index (vec s) i" if "i < p" for i
      using before [OF that] by (simp add: s' s)
    show "index (vec s') (i + 1) = index (vec s) i" if "p \<le> i \<and> i < Size (vec s)" for i
      using after [of i] that by (simp add: s' s Size_def)
    show "Capacity (vec s') = Capacity (vec s)" if "Size (vec s) < Capacity (vec s)"
      using capk that old(3,4) by (simp add: s' s)
    show "released s' = released s" if "Size (vec s) < Capacity (vec s)"
      using that old(3,4) by (simp add: s' s)
    show "faults s' = drop (in_place_steps et (Size (vec s)) p) (faults s)"
      if "Size (vec s) < Capacity (vec s)" "p < Size (vec s)"
      using that old(3,4) steps by (simp add: s' s)
  qed
qed

theorem Emplace_inserts_witness:
  "invar (vec \<lparr>vec = full_pair, faults = [], released = []\<rparr>) \<and>
   1 \<le> Size (vec \<lparr>vec = full_pair, faults = [], released = []\<rparr>) \<and>
   arg_value (m_data (vec \<lparr>vec = full_pair, faults = [], released = []\<rparr>)) (External 5) = Some 5 \<and>
   Insert trivial_type 1 (External 5) \<lparr>vec = full_pair, faults = [], released = []\<rparr> =
   Returned 1 \<lparr>vec = \<lparr>m_data = [Some 1, Some 5, Some 2, None], m_size = 3\<rparr>, faults = [],
               released = [[None, None]]\<rparr> \<and>
   elems \<lparr>m_data = [Some 1, Some 5, Some 2, None], m_size = 3\<rparr> = [1, 5, 2 :: nat]"
proof -
  let ?s = "\<lparr>vec = full_pair, faults = [], released = []\<rparr>"
  have h1: "invar (vec ?s)"
    by (simp add: invar_def full_pair_def)
  have h2: "1 \<le> Size (vec ?s)"
    by (simp add: Size_def full_pair_def)
  have h3: "arg_value (m_data (vec ?s)) (External 5) = Some 5"
    by (simp add: arg_value_def)
  have r: "Emplace trivial_type 1 (External 5) ?s =
   Returned 1 \<lparr>vec = \<lparr>m_data = [Some 1, Some 5, Some 2, None], m_size = 3\<rparr>, faults = [],
               released = [[None, None]]\<rparr>"
    by code_simp
  have e: "elems \<lparr>m_data = [Some 1, Some 5, Some 2, None], m_size = 3\<rparr> = [1, 5, 2 :: nat]"
    by code_simp
  from Emplace_inserts [OF h1 h2 h3, of trivial_type]
  have "Insert trivial_type 1 (External 5) ?s = Emplace trivial_type 1 (External 5) ?s"
    by blast
  with h1 h2 h3 r e show ?thesis
    by simp
qed

section \<open>Exceptions during reallocation\<close>








section \<open>Resize, PopBack and move construction\<close>

lemma destroy_tail:
  assumes "new_size \<le> length xs"
  shows "destroy_n (map Some xs @ replicate k None) new_size (length xs - new_size) =
         Some (map Some (take new_size xs) @ replicate (length xs - new_size + k) None)"
proof -
  have "destroy_n (map Some (take new_size xs) @ map Some (drop new_size xs) @ replicate k None)
          (length (map Some (take new_size xs))) (length (drop new_size xs)) =
        Some (map Some (take new_size xs) @ replicate (length (drop new_size xs)) None @ replicate k None)"
    by (rule destroy_n_live)
  moreover have "map Some xs @ replicate k None =
                 map Some (take new_size xs) @ map Some (drop new_size xs) @ replicate k None"
    using map_Some_split [of xs new_size] by simp
  moreover have "replicate (length (drop new_size xs)) None @ replicate k None =
                 replicate (length xs - new_size + k) (None :: 'a slot)"
    by (simp add: replicate_add)
  ultimately show ?thesis
    using assms by (simp del: replicate_add)
qed

text \<open>
  Claim C9. On a sequence of size \<open>n\<close> that satisfies the invariant, \<open>Resize(new_size)\<close> with
  \<open>new_size < n\<close>, in both versions of the class, returns (it has no step that may throw); the
  size is \<open>new_size\<close>; the slots below \<open>new_size\<close> are what they were and all slots from
  \<open>new_size\<close> on are uninitialized, so exactly the elements at \<open>[new_size, n)\<close> were destroyed;
  the first \<open>new_size\<close> elements and the capacity are what they were. The witness is
  \<open>Resize(0)\<close> on a sequence of five elements.
\<close>

theorem Resize_shrinks:
  assumes "invar (vec s)" and "new_size < Size (vec s)"
  shows "\<exists>s'. Resize et new_size s = Returned () s' \<and> Resize_0 et new_size s = Returned () s' \<and>
           Size (vec s') = new_size \<and> Capacity (vec s') = Capacity (vec s) \<and>
           elems (vec s') = take new_size (elems (vec s)) \<and>
           m_data (vec s') = take new_size (m_data (vec s)) @
                             replicate (Capacity (vec s) - new_size) None \<and>
           invar (vec s') \<and> faults s' = faults s \<and> released s' = released s"
proof -
  from assms(1) obtain xs k fs rel where
    s: "s = \<lparr>vec = \<lparr>m_data = map Some xs @ replicate k None, m_size = length xs\<rparr>,
             faults = fs, released = rel\<rparr>"
    by (rule invar_stateE)
  from assms(2) have lt: "new_size < length xs"
    by (simp add: s Size_def)
  then have le: "new_size \<le> length xs"
    by simp
  let ?K = "length xs - new_size + k"
  let ?v' = "\<lparr>m_data = map Some (take new_size xs) @ replicate ?K None, m_size = new_size\<rparr>"
  let ?s' = "\<lparr>vec = ?v', faults = fs, released = rel\<rparr>"
  have inv': "invar ?v'" and el': "elems ?v' = take new_size xs"
    and cap': "Capacity ?v' = length (take new_size xs) + ?K"
    by (rule invar_of_shape [where xs = "take new_size xs" and k = ?K]; use le in simp)+
  have r: "Resize et new_size s = Returned () ?s'"
    using lt by (simp add: s Resize_def Capacity_def destroy_tail [OF le] del: destroy_n.simps)
  have r0: "Resize_0 et new_size s = Returned () ?s'"
    using lt by (simp add: s Resize_0_def destroy_tail [OF le] del: destroy_n.simps)
  have old: "elems (vec s) = xs" "Capacity (vec s) = length xs + k"
    unfolding s by (simp_all add: shape_facts)
  have d: "m_data ?v' = take new_size (map Some xs @ replicate k None) @
                        replicate (length xs + k - new_size) None"
    using le by (simp add: take_map)
  show ?thesis
  proof (intro exI [of _ ?s'] conjI)
    show "Resize et new_size s = Returned () ?s'" by (rule r)
    show "Resize_0 et new_size s = Returned () ?s'" by (rule r0)
    show "Size (vec ?s') = new_size" by (simp add: Size_def)
    show "Capacity (vec ?s') = Capacity (vec s)" using cap' le by (simp add: old)
    show "elems (vec ?s') = take new_size (elems (vec s))" using el' by (simp add: old)
    show "m_data (vec ?s') = take new_size (m_data (vec s)) @ replicate (Capacity (vec s) - new_size) None"
      using d unfolding old by (simp add: s)
    show "invar (vec ?s')" using inv' by simp
    show "faults ?s' = faults s" by (simp add: s)
    show "released ?s' = released s" by (simp add: s)
  qed
qed

theorem Resize_shrinks_witness:
  "invar (vec \<lparr>vec = five, faults = [True], released = []\<rparr>) \<and>
   0 < Size (vec \<lparr>vec = five, faults = [True], released = []\<rparr>) \<and>
   Resize trivial_type 0 \<lparr>vec = five, faults = [True], released = []\<rparr> =
   Returned () \<lparr>vec = \<lparr>m_data = [None, None, None, None, None, None, None], m_size = 0\<rparr>,
                faults = [True], released = []\<rparr> \<and>
   Resize_0 trivial_type 0 \<lparr>vec = five, faults = [True], released = []\<rparr> =
   Returned () \<lparr>vec = \<lparr>m_data = [None, None, None, None, None, None, None], m_size = 0\<rparr>,
                faults = [True], released = []\<rparr> \<and>
   Capacity five = 7"
proof -
  let ?s = "\<lparr>vec = five, faults = [True], released = []\<rparr>"
  have h1: "invar (vec ?s)"
    by (simp add: invar_def five_def)
  have h2: "0 < Size (vec ?s)"
    by (simp add: Size_def five_def)
  have r: "Resize trivial_type 0 ?s =
   Returned () \<lparr>vec = \<lparr>m_data = [None, None, None, None, None, None, None], m_size = 0\<rparr>,
                faults = [True], released = []\<rparr>"
    by code_simp
  have c: "Capacity five = 7"
    by (simp add: Capacity_def five_def)
  from Resize_shrinks [OF h1 h2, of trivial_type]
  have "\<exists>s'. Resize trivial_type 0 ?s = Returned () s' \<and> Resize_0 trivial_type 0 ?s = Returned () s'"
    by blast
  with h1 h2 r c show ?thesis
    by auto
qed

text \<open>
  Claim C10. On a non-empty sequence that satisfies the invariant, \<open>PopBack\<close> does not reach
  the failing assertion; it destroys the element in the last live slot and nothing else, the
  size is one less, and the first \<open>size - 1\<close> elements and the capacity are what they were.
\<close>

theorem PopBack_removes_last:
  assumes "invar v" and "0 < Size v"
  shows "PopBack v \<noteq> Undefined \<and>
         PopBack v = Returned () \<lparr>m_data = (m_data v)[Size v - 1 := None], m_size = Size v - 1\<rparr> \<and>
         (\<forall>v'. PopBack v = Returned () v' \<longrightarrow>
            Size v' = Size v - 1 \<and> Capacity v' = Capacity v \<and>
            elems v' = butlast (elems v) \<and> elems v' = take (Size v - 1) (elems v) \<and> invar v')"
proof -
  from assms(1) obtain xs k where
    v: "v = \<lparr>m_data = map Some xs @ replicate k None, m_size = length xs\<rparr>"
    by (rule invar_vectorE)
  from assms(2) have "xs \<noteq> []"
    by (auto simp: v Size_def)
  then obtain ys z where xs: "xs = ys @ [z]"
    by (metis rev_exhaust)
  let ?v' = "\<lparr>m_data = map Some ys @ replicate (Suc k) None, m_size = length ys\<rparr>"
  have d: "destroy_at (map Some ys @ Some z # replicate k None) (length ys) =
           Some (map Some ys @ None # replicate k None)"
    using destroy_n_live [of "map Some ys" "[z]" "replicate k None"] by (simp add: destroy_at_def)
  have r: "PopBack v = Returned () ?v'"
    by (simp add: PopBack_def v xs d)
  have u: "(m_data v)[Size v - 1 := None] = map Some ys @ replicate (Suc k) None"
    by (simp add: v xs Size_def list_update_append)
  have f: "invar ?v'" "elems ?v' = ys" "Capacity ?v' = length ys + Suc k" "Size ?v' = length ys"
    by (rule shape_facts)+
  have o: "elems v = xs" "Capacity v = length xs + k" "Size v = length xs"
    unfolding v by (rule shape_facts)+
  show ?thesis
    using r u f o xs by (auto simp: Size_def)
qed

theorem PopBack_removes_last_witness:
  "invar two_of_three \<and> 0 < Size two_of_three \<and>
   PopBack two_of_three = Returned () \<lparr>m_data = [Some 1, None, None], m_size = 1\<rparr>"
proof -
  have h1: "invar two_of_three"
    by (simp add: invar_def two_of_three_def)
  have h2: "0 < Size two_of_three"
    by (simp add: Size_def two_of_three_def)
  from PopBack_removes_last [OF h1 h2]
  have "PopBack two_of_three =
        Returned () \<lparr>m_data = (m_data two_of_three)[Size two_of_three - 1 := None],
                     m_size = Size two_of_three - 1\<rparr>"
    by blast
  with h1 h2 show ?thesis
    by (simp add: two_of_three_def Size_def)
qed

text \<open>
  Claim C7. Move construction (a function without a step that may throw: it is \<open>noexcept\<close>
  and only moves the storage handle and copies the size) leaves the source with size 0 and no
  storage; the new sequence has the storage, the size and so the elements, in their order, of
  the source.
\<close>

theorem move_construction:
  "Size (snd (Vector_move S)) = 0 \<and> Capacity (snd (Vector_move S)) = 0 \<and>
   elems (snd (Vector_move S)) = [] \<and> invar (snd (Vector_move S)) \<and>
   Size (fst (Vector_move S)) = Size S \<and> Capacity (fst (Vector_move S)) = Capacity S \<and>
   elems (fst (Vector_move S)) = elems S \<and> m_data (fst (Vector_move S)) = m_data S \<and>
   invar (fst (Vector_move S)) = invar S"
  by (simp add: Vector_move_def Size_def Capacity_def elems_def invar_def)

theorem move_construction_witness:
  "Size (snd (Vector_move two_of_three)) = 0 \<and> elems (fst (Vector_move two_of_three)) = [1, 2] \<and>
   Size (fst (Vector_move two_of_three)) = 2 \<and> invar (fst (Vector_move two_of_three))"
proof -
  have "invar two_of_three" and "elems two_of_three = [1, 2]" and "Size two_of_three = 2"
    by (simp_all add: invar_def elems_def Size_def two_of_three_def)
  with move_construction [of two_of_three] show ?thesis
    by simp
qed

section \<open>Erase\<close>

lemma Erase_eq:
  assumes "w = last (y # map (moved_from et) zs)"
  shows "Erase et (length ps)
     \<lparr>vec = \<lparr>m_data = map Some (ps @ y # zs) @ replicate k None, m_size = length (ps @ y # zs)\<rparr>,
      faults = fs, released = rel\<rparr> =
   (if fault_in (length zs) fs then
      Thrown \<lparr>vec = \<lparr>m_data = map Some ps @
                        map Some (take (first_fault fs) zs @
                                  [last (y # map (moved_from et) (take (first_fault fs) zs))] @
                                  drop (first_fault fs) zs) @ replicate k None,
                      m_size = length (ps @ y # zs)\<rparr>,
              faults = drop (Suc (first_fault fs)) fs, released = rel\<rparr>
    else
      Returned (length ps)
        \<lparr>vec = \<lparr>m_data = map Some ps @ None # map Some (tl (zs @ [w])) @ replicate k None,
                m_size = length ps + length zs\<rparr>,
         faults = drop (length zs) fs, released = rel\<rparr>)"
proof -
  let ?mf = "moved_from et"
  let ?buf = "map Some ps @ map Some (zs @ [w]) @ replicate k None"
  have mv: "move_range et (Suc (length ps)) (length zs) (length ps)
              (map Some (ps @ y # zs) @ replicate k None, fs) =
     (if fault_in (length zs) fs
      then Thrown (map Some ps @ map Some (take (first_fault fs) zs @
                     [last (y # map ?mf (take (first_fault fs) zs))] @
                     drop (first_fault fs) zs) @ replicate k None,
                   drop (Suc (first_fault fs)) fs)
      else Returned (length (map Some ps) + length zs) (?buf, drop (length zs) fs))"
    unfolding assms by (rule move_range_cases) simp_all
  have "\<exists>h. zs @ [w] = h # tl (zs @ [w])"
    by (cases zs) simp_all
  then obtain h where h: "zs @ [w] = h # tl (zs @ [w])" ..
  have "destroy_n (map Some ps @ map Some [h] @ (map Some (tl (zs @ [w])) @ replicate k None))
          (length (map Some ps)) (length [h]) =
        Some (map Some ps @ replicate (length [h]) None @ (map Some (tl (zs @ [w])) @ replicate k None))"
    by (rule destroy_n_live)
  moreover have "?buf = map Some ps @ map Some [h] @ (map Some (tl (zs @ [w])) @ replicate k None)"
    by (subst h) simp
  ultimately have ds: "destroy_at ?buf (length ps) =
        Some (map Some ps @ None # map Some (tl (zs @ [w])) @ replicate k None)"
    by (simp add: destroy_at_def del: destroy_n.simps)
  show ?thesis
    unfolding Erase_def Let_def
    by (simp add: mv ds del: map_append destroy_n.simps)
qed

text \<open>
  What \<open>Erase\<close> does. At the last element it destroys that element. Before the last element
  it moves the elements behind \<open>p\<close> one slot down and then destroys the slot at \<open>p\<close>, which by
  then holds the element that followed the erased one; the slot of the old last element stays
  live, with a moved-from value, behind the new size.
\<close>

lemma Erase_at_last:
  assumes "invar (vec s)" and "0 < Size (vec s)"
  shows "\<exists>s'. Erase et (Size (vec s) - 1) s = Returned (Size (vec s) - 1) s' \<and>
           Size (vec s') = Size (vec s) - 1 \<and> elems (vec s') = butlast (elems (vec s)) \<and>
           Capacity (vec s') = Capacity (vec s) \<and> invar (vec s')"
proof -
  from assms(1) obtain xs k fs rel where
    s: "s = \<lparr>vec = \<lparr>m_data = map Some xs @ replicate k None, m_size = length xs\<rparr>,
             faults = fs, released = rel\<rparr>"
    by (rule invar_stateE)
  from assms(2) have "xs \<noteq> []"
    by (auto simp: s Size_def)
  then obtain ps y where xs: "xs = ps @ [y]"
    by (metis rev_exhaust)
  let ?v' = "\<lparr>m_data = map Some ps @ replicate (Suc k) None, m_size = length ps\<rparr>"
  have "Erase et (length ps) s =
        Returned (length ps) \<lparr>vec = ?v', faults = fs, released = rel\<rparr>"
    unfolding s xs using Erase_eq [of y y et "[]" ps k fs rel] by simp
  moreover have "invar ?v'" "elems ?v' = ps" "Capacity ?v' = length ps + Suc k" "Size ?v' = length ps"
    by (rule shape_facts)+
  moreover have "elems (vec s) = xs" "Capacity (vec s) = length xs + k" "Size (vec s) = length xs"
    unfolding s by (simp_all add: shape_facts)
  ultimately show ?thesis
    by (simp add: xs)
qed

lemma Erase_before_last:
  assumes "invar (vec s)" and "p + 1 < Size (vec s)" and "Erase et p s = Returned r s'"
  shows "r = p \<and> Size (vec s') = Size (vec s) - 1 \<and>
         m_data (vec s') =
           map Some (take p (elems (vec s))) @ None # map Some (drop (p + 2) (elems (vec s))) @
           Some (moved_from et (last (elems (vec s)))) #
           replicate (Capacity (vec s) - Size (vec s)) None \<and>
         index (vec s') p = None \<and> \<not> invar (vec s')"
proof -
  from assms(1) obtain xs k fs rel where
    s: "s = \<lparr>vec = \<lparr>m_data = map Some xs @ replicate k None, m_size = length xs\<rparr>,
             faults = fs, released = rel\<rparr>"
    by (rule invar_stateE)
  from assms(2) have p: "p + 1 < length xs"
    by (simp add: s Size_def)
  define ps y zs where "ps = take p xs" and "y = xs ! p" and "zs = drop (Suc p) xs"
  define w where "w = last (y # map (moved_from et) zs)"
  have xs: "xs = ps @ y # zs"
    using p by (simp add: ps_def y_def zs_def id_take_nth_drop)
  have lp: "length ps = p"
    using p by (simp add: ps_def)
  have ne: "zs \<noteq> []"
    using p by (simp add: zs_def)
  then have w: "w = moved_from et (last xs)"
    by (simp add: w_def xs last_map)
  have tl: "tl (zs @ [w]) = drop (p + 2) xs @ [w]"
    using ne by (simp add: zs_def drop_Suc tl_drop)
  let ?d = "map Some ps @ None # map Some (tl (zs @ [w])) @ replicate k None"
  from assms(3) have res: "r = p \<and> s' = \<lparr>vec = \<lparr>m_data = ?d, m_size = length ps + length zs\<rparr>,
                                       faults = drop (length zs) fs, released = rel\<rparr>"
    unfolding s xs Erase_eq [OF w_def, of ps k fs rel] lp [symmetric]
    by (auto split: if_splits)
  have d: "?d = map Some (take p xs) @ None # map Some (drop (p + 2) xs) @
                Some (moved_from et (last xs)) # replicate k None"
    unfolding tl by (simp add: w ps_def)
  have e: "elems (vec s) = xs" and c: "Capacity (vec s) - Size (vec s) = k"
    and z: "Size (vec s) = length xs"
    unfolding s by (simp_all add: shape_facts)
  have sz: "length ps + length zs = length xs - 1"
    by (simp add: xs)
  have ix: "index \<lparr>m_data = ?d, m_size = length ps + length zs\<rparr> p = None"
    using ne read_mid_None [of "map Some ps" "map Some (tl (zs @ [w])) @ replicate k None"]
    by (simp add: index_def lp)
  have ninv: "\<not> invar \<lparr>m_data = ?d, m_size = length ps + length zs\<rparr>"
  proof -
    from ne obtain m where "length zs = Suc m"
      by (cases zs) auto
    then show ?thesis
      by (simp add: invar_def)
  qed
  from res have r: "r = p" and s': "vec s' = \<lparr>m_data = ?d, m_size = length ps + length zs\<rparr>"
    by simp_all
  show ?thesis
  proof (intro conjI)
    show "r = p" by (rule r)
    show "Size (vec s') = Size (vec s) - 1"
      unfolding s' z by (simp add: Size_def sz)
    show "m_data (vec s') =
           map Some (take p (elems (vec s))) @ None # map Some (drop (p + 2) (elems (vec s))) @
           Some (moved_from et (last (elems (vec s)))) #
           replicate (Capacity (vec s) - Size (vec s)) None"
      unfolding s' c e using d by simp
    show "index (vec s') p = None"
      unfolding s' by (rule ix)
    show "\<not> invar (vec s')"
      unfolding s' by (rule ninv)
  qed
qed

text \<open>
  Claim C4 at a failing input: \<open>Erase(begin())\<close> on the strings \<open>a, b, c\<close>. The claim has the
  vacant last slot destroyed and the position \<open>0\<close> holding the next element; the code
  destroys slot \<open>0\<close> and leaves the moved-from last slot live.
\<close>

theorem Erase_destroys_wrong_slot:
  "Erase string_type 0 \<lparr>vec = abc, faults = [], released = []\<rparr> =
   Returned 0 \<lparr>vec = \<lparr>m_data = [None, Some ''c'', Some []], m_size = 2\<rparr>,
               faults = [], released = []\<rparr>"
  by code_simp

text \<open>
  Claim C8 at a failing input: \<open>Insert(begin(), x)\<close> on the strings \<open>a, b\<close>, then \<open>Erase\<close> at
  the returned position. The position returned is that of the insertion, but the sequence
  does not hold \<open>a, b\<close> again: its first slot holds no live element.
\<close>

theorem Insert_then_Erase_loses_element:
  "Insert string_type 0 (External ''x'') \<lparr>vec = ab, faults = [], released = []\<rparr> =
   Returned 0 \<lparr>vec = \<lparr>m_data = [Some ''x'', Some ''a'', Some ''b'', None], m_size = 3\<rparr>,
               faults = [], released = [[None, None]]\<rparr> \<and>
   Erase string_type 0
     \<lparr>vec = \<lparr>m_data = [Some ''x'', Some ''a'', Some ''b'', None], m_size = 3\<rparr>,
      faults = [], released = [[None, None]]\<rparr> =
   Returned 0 \<lparr>vec = \<lparr>m_data = [None, Some ''b'', Some [], None], m_size = 2\<rparr>,
               faults = [], released = [[None, None]]\<rparr> \<and>
   index ab 0 = Some ''a'' \<and>
   index \<lparr>m_data = [None, Some ''b'', Some [], None], m_size = 2\<rparr> 0 = None"
  by code_simp

text \<open>
  Claim C2 at a failing input: the sequence of the strings \<open>a, b, c\<close> satisfies the invariant,
  and after \<open>Erase(begin() + 1)\<close> it does not: a slot below the size is uninitialized and a slot
  from the size on is live.
\<close>

theorem Erase_breaks_invariant:
  "invar abc \<and>
   Erase string_type 1 \<lparr>vec = abc, faults = [], released = []\<rparr> =
   Returned 1 \<lparr>vec = \<lparr>m_data = [Some ''a'', None, Some []], m_size = 2\<rparr>,
               faults = [], released = []\<rparr> \<and>
   \<not> invar \<lparr>m_data = [Some ''a'', None, Some []], m_size = 2\<rparr>"
  by code_simp

section \<open>PushBack and EmplaceBack\<close>

lemma new_capacity_for_gt: "n < new_capacity_for n"
  by (cases n) (simp_all add: new_capacity_for_def)

lemma snoc_Some: "map Some (xs @ [x]) = map Some xs @ [Some x]"
  by simp

lemma transfer_all:
  assumes "length xs < N"
  shows "ShiftDataToNewMemory et (map Some xs) 0 (length xs) (replicate (length xs) None @ y # replicate (N - Suc (length xs)) None) 0 fs =
     (if may_throw et (transfer_ctor et) \<and> fault_in (length xs) fs
      then Thrown (map Some (partially et (transfer_ctor et) (first_fault fs) xs),
                   replicate (length xs) None @ y # replicate (N - Suc (length xs)) None,
                   drop (Suc (first_fault fs)) fs)
      else Returned () (map Some (map (source_after et (transfer_ctor et)) xs),
                        map Some xs @ y # replicate (N - Suc (length xs)) None,
                        consumed et (transfer_ctor et) (length xs) fs))"
  using ShiftDataToNewMemory_cases [of "map Some xs" "[]" xs "[]"
      "replicate (length xs) None @ y # replicate (N - Suc (length xs)) None" "[]"
      "y # replicate (N - Suc (length xs)) None" 0 "length xs" 0 et fs]
  by simp

lemma ReallocateAndEmplace_eq:
  assumes "arg_value (map Some xs) a = Some x"
  shows "ReallocateAndEmplace et a
           \<lparr>vec = \<lparr>m_data = map Some xs, m_size = length xs\<rparr>, faults = fs, released = rel\<rparr> =
         (let c = transfer_ctor et; N = new_capacity_for (length xs); fs2 = tl (tl fs) in
          if throws fs then
            Thrown \<lparr>vec = \<lparr>m_data = map Some xs, m_size = length xs\<rparr>, faults = tl fs, released = rel\<rparr>
          else if throws (tl fs) then
            Thrown \<lparr>vec = \<lparr>m_data = map Some xs, m_size = length xs\<rparr>, faults = fs2,
                    released = rel @ [replicate N None]\<rparr>
          else if may_throw et c \<and> fault_in (length xs) fs2 then
            Thrown \<lparr>vec = \<lparr>m_data = map Some (partially et c (first_fault fs2) xs), m_size = length xs\<rparr>,
                    faults = drop (Suc (first_fault fs2)) fs2,
                    released = rel @ [replicate N None]\<rparr>
          else
            Returned (length xs)
              \<lparr>vec = \<lparr>m_data = map Some (xs @ [x]) @ replicate (N - Suc (length xs)) None,
                      m_size = Suc (length xs)\<rparr>,
               faults = consumed et c (length xs) fs2,
               released = rel @ [replicate (length xs) None]\<rparr>)"
proof -
  let ?c = "transfer_ctor et" and ?N = "new_capacity_for (length xs)"
  let ?fs2 = "tl (tl fs)"
  let ?sa = "source_after et ?c"
  let ?nd1 = "replicate (length xs) None @ Some x # replicate (?N - Suc (length xs)) None"
  have N: "length xs < ?N"
    by (rule new_capacity_for_gt)
  have nd1: "(replicate ?N None)[length xs := Some x] = ?nd1"
    using N by (simp add: replicate_update)
  have alloc: "RawMemory_new ?N fs =
     (if throws fs then (None, tl fs) else (Some (replicate ?N None), tl fs))"
    using N by (simp add: RawMemory_new_def)
  have construct: "construct_at (map Some xs) a (replicate ?N None) (length xs) (tl fs) =
     (if throws (tl fs) then Thrown (replicate ?N None, ?fs2) else Returned () (?nd1, ?fs2))"
    using assms N by (simp add: construct_at_def nd1)
  note shift = transfer_all [OF N, of et "Some x" ?fs2]
  have destroy1: "destroy_at ?nd1 (length xs) = Some (replicate ?N None)"
  proof -
    have "destroy_n (replicate (length xs) None @ map Some [x] @ replicate (?N - Suc (length xs)) None)
            (length (replicate (length xs) (None :: 'a slot))) (length [x]) =
          Some (replicate (length xs) None @ replicate (length [x]) None @
                replicate (?N - Suc (length xs)) None)"
      by (rule destroy_n_live)
    then show ?thesis
      using N by (simp add: destroy_at_def replicate_mid del: destroy_n.simps)
  qed
  have destroy2: "destroy_n (map Some (map ?sa xs)) 0 (length xs) = Some (replicate (length xs) None)"
    using destroy_n_live [of "[]" "map ?sa xs" "[]"] by simp
  show ?thesis
    unfolding ReallocateAndEmplace_def Let_def new_capacity_for_def [symmetric]
    by (simp add: alloc construct shift destroy1 destroy2 snoc_Some
        del: map_map map_append destroy_n.simps)
qed

lemma ReallocateAndPush_eq:
  assumes "arg_value (map Some (map (source_after et (transfer_ctor et)) xs)) a = Some x"
  shows "ReallocateAndPush et a
           \<lparr>vec = \<lparr>m_data = map Some xs, m_size = length xs\<rparr>, faults = fs, released = rel\<rparr> =
         (let c = transfer_ctor et; N = new_capacity_for (length xs);
              fs2 = consumed et c (length xs) (tl fs) in
          if throws fs then
            Thrown \<lparr>vec = \<lparr>m_data = map Some xs, m_size = length xs\<rparr>, faults = tl fs, released = rel\<rparr>
          else if may_throw et c \<and> fault_in (length xs) (tl fs) then
            Thrown \<lparr>vec = \<lparr>m_data = map Some (partially et c (first_fault (tl fs)) xs),
                            m_size = length xs\<rparr>,
                    faults = drop (Suc (first_fault (tl fs))) (tl fs),
                    released = rel @ [replicate N None]\<rparr>
          else if throws fs2 then
            Thrown \<lparr>vec = \<lparr>m_data = map Some (map (source_after et c) xs), m_size = length xs\<rparr>,
                    faults = tl fs2,
                    released = rel @ [map Some xs @ replicate (N - length xs) None]\<rparr>
          else
            Returned ()
              \<lparr>vec = \<lparr>m_data = map Some (xs @ [x]) @ replicate (N - Suc (length xs)) None,
                      m_size = Suc (length xs)\<rparr>,
               faults = tl fs2,
               released = rel @ [replicate (length xs) None]\<rparr>)"
proof -
  let ?c = "transfer_ctor et" and ?N = "new_capacity_for (length xs)"
  let ?fs2 = "consumed et ?c (length xs) (tl fs)"
  let ?sa = "source_after et ?c"
  let ?dc = "map Some xs @ None # replicate (?N - Suc (length xs)) None"
  have N: "length xs < ?N"
    by (rule new_capacity_for_gt)
  have alloc: "RawMemory_new ?N fs =
     (if throws fs then (None, tl fs) else (Some (replicate ?N None), tl fs))"
    using N by (simp add: RawMemory_new_def)
  have fresh: "replicate ?N None = replicate (length xs) None @ None # replicate (?N - Suc (length xs)) (None :: 'a slot)"
    using N by (simp add: replicate_mid)
  have shift: "ShiftDataToNewMemory et (map Some xs) 0 (length xs) (replicate ?N None) 0 (tl fs) =
     (if may_throw et ?c \<and> fault_in (length xs) (tl fs)
      then Thrown (map Some (partially et ?c (first_fault (tl fs)) xs), replicate ?N None,
                   drop (Suc (first_fault (tl fs))) (tl fs))
      else Returned () (map Some (map ?sa xs), ?dc, ?fs2))"
    using transfer_all [OF N, of et None "tl fs"] unfolding fresh [symmetric] by simp
  have construct: "construct_at (map Some (map ?sa xs)) a ?dc (length xs) ?fs2 =
     (if throws ?fs2 then Thrown (?dc, tl ?fs2)
      else Returned () (map Some xs @ Some x # replicate (?N - Suc (length xs)) None, tl ?fs2))"
    using assms N list_update_length [of "map Some xs" None "replicate (?N - Suc (length xs)) None" "Some x"]
    by (simp add: construct_at_def)
  have destroy: "destroy_n (map Some (map ?sa xs)) 0 (length xs) = Some (replicate (length xs) None)"
    using destroy_n_live [of "[]" "map ?sa xs" "[]"] by simp
  have leak: "?dc = map Some xs @ replicate (?N - length xs) None"
    using N by (simp add: Suc_diff_Suc [symmetric] del: replicate.simps replicate_Suc)
      (metis Suc_diff_Suc replicate_Suc)
  show ?thesis
    unfolding ReallocateAndPush_def Let_def new_capacity_for_def [symmetric]
    by (simp add: alloc shift construct destroy leak [symmetric] snoc_Some
        del: map_map map_append destroy_n.simps)
qed

lemma appended_shape:
  "appended \<lparr>m_data = map Some xs @ replicate k None, m_size = length xs\<rparr> x
     \<lparr>m_data = map Some (xs @ [x]) @ replicate K None, m_size = Suc (length xs)\<rparr>"
proof -
  let ?v = "\<lparr>m_data = map Some xs @ replicate k None, m_size = length xs\<rparr>"
  let ?v' = "\<lparr>m_data = map Some (xs @ [x]) @ replicate K None, m_size = Suc (length xs)\<rparr>"
  have new: "invar ?v'" "elems ?v' = xs @ [x]"
    by (rule invar_of_shape [where xs = "xs @ [x]" and k = K]; simp)+
  have old: "elems ?v = xs" "Size ?v = length xs"
    by (rule shape_facts)+
  have ix: "index ?v' (length xs) = Some ((xs @ [x]) ! length xs)"
    using index_elems [OF new(1), of "length xs"] new(2) by simp
  show ?thesis
    unfolding appended_def old
  proof (intro conjI)
    show "Size ?v' = length xs + 1" by (simp add: Size_def)
    show "index ?v' (length xs) = Some x" unfolding ix by simp
    show "take (length xs) (elems ?v') = xs" unfolding new(2) by simp
    show "elems ?v' = xs @ [x]" by (rule new(2))
    show "invar ?v'" by (rule new(1))
  qed
qed

lemma source_after_copy: "source_after et CopyCtor = (\<lambda>x. x)"
  by (simp add: fun_eq_iff source_after_def)

lemma push_steps_fault:
  "fault_in (emplace_steps et n n p) fs =
   (throws fs \<or> throws (tl fs) \<or> may_throw et (transfer_ctor et) \<and> fault_in n (tl (tl fs)))"
  "fault_in (emplace_steps et n n p) fs =
   (throws fs \<or> may_throw et (transfer_ctor et) \<and> fault_in n (tl fs) \<or>
    throws (consumed et (transfer_ctor et) n (tl fs)))"
  "drop (emplace_steps et n n p) fs = consumed et (transfer_ctor et) n (tl (tl fs))"
  "drop (emplace_steps et n n p) fs = tl (consumed et (transfer_ctor et) n (tl fs))"
proof -
  let ?mt = "may_throw et (transfer_ctor et)"
  have st: "emplace_steps et n n p = (if ?mt then Suc (Suc n) else Suc (Suc 0))"
    by (simp add: emplace_steps_def)
  have a: "fault_in (Suc (Suc m)) fs = (throws fs \<or> throws (tl fs) \<or> fault_in m (tl (tl fs)))" for m
    by (simp only: fault_in_Suc)
  have b: "fault_in (Suc (Suc m)) fs = (throws fs \<or> fault_in m (tl fs) \<or> throws (drop m (tl fs)))" for m
    using fault_in_snoc [of m "tl fs"] by (simp add: fault_in_Suc [of "Suc m"])
  have c: "drop (Suc (Suc m)) fs = drop m (tl (tl fs))" "drop (Suc (Suc m)) fs = tl (drop m (tl fs))" for m
    by (simp_all add: drop_Suc_tl tl_drop)
  show "fault_in (emplace_steps et n n p) fs =
        (throws fs \<or> throws (tl fs) \<or> ?mt \<and> fault_in n (tl (tl fs)))"
    unfolding st by (cases ?mt) (simp_all add: a)
  show "fault_in (emplace_steps et n n p) fs =
        (throws fs \<or> ?mt \<and> fault_in n (tl fs) \<or> throws (consumed et (transfer_ctor et) n (tl fs)))"
    unfolding st by (cases ?mt) (simp_all add: b consumed_def)
  show "drop (emplace_steps et n n p) fs = consumed et (transfer_ctor et) n (tl (tl fs))"
    unfolding st by (cases ?mt) (simp_all add: c(1) consumed_def)
  show "drop (emplace_steps et n n p) fs = tl (consumed et (transfer_ctor et) n (tl fs))"
    unfolding st by (cases ?mt) (simp_all add: c(2) consumed_def)
qed

lemma in_place_at_end:
  assumes "arg_value (map Some xs @ replicate (Suc k) None) a = Some x"
  shows "construct_at (map Some xs @ replicate (Suc k) None) a (map Some xs @ replicate (Suc k) None)
           (length xs) fs =
         (if throws fs then Thrown (map Some xs @ replicate (Suc k) None, tl fs)
          else Returned () (map Some (xs @ [x]) @ replicate k None, tl fs))"
  using assms by (simp add: construct_at_def list_update_append)

lemma EmplaceBack_0_cases:
  assumes "arg_value (map Some xs @ replicate k None) a = Some x"
  shows "(fault_in (emplace_steps et (length xs) (length xs + k) (length xs)) fs \<longrightarrow>
          (\<exists>s'. EmplaceBack_0 et a
             \<lparr>vec = \<lparr>m_data = map Some xs @ replicate k None, m_size = length xs\<rparr>,
              faults = fs, released = rel\<rparr> = Thrown s')) \<and>
         (\<not> fault_in (emplace_steps et (length xs) (length xs + k) (length xs)) fs \<longrightarrow>
          EmplaceBack_0 et a
             \<lparr>vec = \<lparr>m_data = map Some xs @ replicate k None, m_size = length xs\<rparr>,
              faults = fs, released = rel\<rparr> =
          Returned (length xs)
            \<lparr>vec = \<lparr>m_data = map Some (xs @ [x]) @
                      replicate ((if k = 0 then new_capacity_for (length xs) else length xs + k) -
                                 Suc (length xs)) None,
                    m_size = Suc (length xs)\<rparr>,
             faults = drop (emplace_steps et (length xs) (length xs + k) (length xs)) fs,
             released = (if k = 0 then rel @ [replicate (length xs) None] else rel)\<rparr>)"
proof (cases k)
  case 0
  with assms have a: "arg_value (map Some xs) a = Some x"
    by simp
  show ?thesis
    unfolding 0
    by (simp add: EmplaceBack_0_def Capacity_def ReallocateAndEmplace_eq [OF a] Let_def
        push_steps_fault(1,3))
next
  case (Suc k')
  have st: "emplace_steps et (length xs) (length xs + Suc k') (length xs) = 1"
    by (simp add: emplace_steps_def)
  have f: "fault_in 1 fs = throws fs" "drop 1 fs = tl fs"
    by (cases fs; simp)+
  show ?thesis
    unfolding Suc st f
    using in_place_at_end [of xs k' a x fs] assms Suc
    by (simp add: EmplaceBack_0_def Capacity_def Let_def)
qed

lemma PushBack_0_cases:
  assumes "arg_value (map Some xs @ replicate k None) a = Some x"
    and "y = (if k = 0 then read_after_transfer et a x else x)"
  shows "(fault_in (emplace_steps et (length xs) (length xs + k) (length xs)) fs \<longrightarrow>
          (\<exists>s'. PushBack_0 et a
             \<lparr>vec = \<lparr>m_data = map Some xs @ replicate k None, m_size = length xs\<rparr>,
              faults = fs, released = rel\<rparr> = Thrown s')) \<and>
         (\<not> fault_in (emplace_steps et (length xs) (length xs + k) (length xs)) fs \<longrightarrow>
          PushBack_0 et a
             \<lparr>vec = \<lparr>m_data = map Some xs @ replicate k None, m_size = length xs\<rparr>,
              faults = fs, released = rel\<rparr> =
          Returned ()
            \<lparr>vec = \<lparr>m_data = map Some (xs @ [y]) @
                      replicate ((if k = 0 then new_capacity_for (length xs) else length xs + k) -
                                 Suc (length xs)) None,
                    m_size = Suc (length xs)\<rparr>,
             faults = drop (emplace_steps et (length xs) (length xs + k) (length xs)) fs,
             released = (if k = 0 then rel @ [replicate (length xs) None] else rel)\<rparr>)"
proof (cases k)
  case 0
  have "arg_value (map Some (map (source_after et (transfer_ctor et)) xs)) a = Some y"
  proof (cases a)
    case (External z)
    with assms 0 show ?thesis
      by (simp add: arg_value_def read_after_transfer_def)
  next
    case (Element i)
    with assms 0 show ?thesis
      by (auto simp: arg_value_def read_after_transfer_def read_def split: if_splits)
  qed
  note eq = ReallocateAndPush_eq [OF this, of fs rel]
  show ?thesis
    unfolding 0
    by (simp add: PushBack_0_def Capacity_def eq Let_def push_steps_fault(2,4))
next
  case (Suc k')
  with assms(2) have y: "y = x"
    by simp
  have st: "emplace_steps et (length xs) (length xs + Suc k') (length xs) = 1"
    by (simp add: emplace_steps_def)
  have f: "fault_in 1 fs = throws fs" "drop 1 fs = tl fs"
    by (cases fs; simp)+
  show ?thesis
    unfolding Suc st f y
    using in_place_at_end [of xs k' a x fs] assms(1) Suc
    by (simp add: PushBack_0_def Capacity_def Let_def)
qed

lemma appends_from_cases:
  assumes "(F \<longrightarrow> (\<exists>s'. out = Thrown s')) \<and> (\<not> F \<longrightarrow> out = Returned r s1)"
    and "F \<Longrightarrow> \<not> no_faults (faults s)"
    and "appended (vec s) x (vec s1)"
  shows "appends out s x"
  using assms by (cases F) (auto simp: appends_def)

lemma refers_from_cases:
  assumes "(F \<longrightarrow> (\<exists>s'. out = Thrown s')) \<and> (\<not> F \<longrightarrow> out = Returned r s1)"
    and "r = Size (vec s)" and "index (vec s1) r = Some x"
  shows "refers_to_new out s x"
  using assms by (cases F) (auto simp: refers_to_new_def)

text \<open>
  Claim C5 at a failing input: \<open>PushBack(S[0])\<close>, in the version of src/unnamed/part_000, on
  the sequence that holds the one string \<open>abc\<close> and is full. The claim has the element at the
  old size equal to the value pushed, \<open>abc\<close>. \<open>ReallocateAndPush\<close> moves the old elements into
  the new block before it constructs the new element from the reference, so that the element
  at the old size is a copy of the moved-from string, the empty string. (\<open>PushBack\<close> returns
  no reference either: its return type is \<open>void\<close>, here the unit value.)
\<close>

theorem PushBack_of_own_element:
  "PushBack_0 string_type (Element 0) \<lparr>vec = abc_only, faults = [], released = []\<rparr> =
   Returned () \<lparr>vec = \<lparr>m_data = [Some ''abc'', Some []], m_size = 2\<rparr>, faults = [],
                released = [[None]]\<rparr> \<and>
   arg_value (m_data abc_only) (Element 0) = Some ''abc'' \<and>
   index \<lparr>m_data = [Some ''abc'', Some []], m_size = 2\<rparr> (Size abc_only) \<noteq> Some ''abc''"
  by code_simp

text \<open>
  On the same input the \<open>PushBack\<close> of vector.h and the \<open>EmplaceBack\<close> of src/unnamed/part_000,
  which construct the new element before they transfer the old ones, append \<open>abc\<close>.
\<close>

lemma vector_h_pushes_own_element:
  "PushBack string_type (Element 0) \<lparr>vec = abc_only, faults = [], released = []\<rparr> =
   Returned () \<lparr>vec = \<lparr>m_data = [Some ''abc'', Some ''abc''], m_size = 2\<rparr>, faults = [],
                released = [[None]]\<rparr>"
  by code_simp

lemma ReallocateAndEmplace_of_own_element:
  "EmplaceBack_0 string_type (Element 0) \<lparr>vec = abc_only, faults = [], released = []\<rparr> =
   Returned 1 \<lparr>vec = \<lparr>m_data = [Some ''abc'', Some ''abc''], m_size = 2\<rparr>, faults = [],
                released = [[None]]\<rparr>"
  by code_simp

text \<open>
  The functions that construct the new element first are right on every input. On a sequence
  that satisfies the invariant and for an argument with value \<open>x\<close>, also one that refers to
  an element of the sequence: \<open>PushBack\<close> of vector.h and \<open>EmplaceBack\<close> of both versions
  append \<open>x\<close> (the element at the old size is \<open>x\<close>, the size is one more, the elements before
  are what they were, the invariant holds), and \<open>EmplaceBack\<close> returns a reference to the new
  element. They throw only when a step fails.
\<close>

lemma EmplaceBack_appends:
  assumes "invar (vec s)" and "arg_value (m_data (vec s)) a = Some x"
  shows "appends (PushBack et a s) s x \<and>
         appends (EmplaceBack et a s) s x \<and> refers_to_new (EmplaceBack et a s) s x \<and>
         appends (EmplaceBack_0 et a s) s x \<and> refers_to_new (EmplaceBack_0 et a s) s x"
proof -
  from assms(1) obtain xs k fs rel where
    s: "s = \<lparr>vec = \<lparr>m_data = map Some xs @ replicate k None, m_size = length xs\<rparr>,
             faults = fs, released = rel\<rparr>"
    by (rule invar_stateE)
  let ?n = "emplace_steps et (length xs) (length xs + k) (length xs)"
  let ?K = "(if k = 0 then new_capacity_for (length xs) else length xs + k) - Suc (length xs)"
  let ?s1 = "\<lparr>vec = \<lparr>m_data = map Some (xs @ [x]) @ replicate ?K None, m_size = Suc (length xs)\<rparr>,
              faults = drop ?n fs,
              released = (if k = 0 then rel @ [replicate (length xs) None] else rel)\<rparr>"
  from assms(2) have a: "arg_value (map Some xs @ replicate k None) a = Some x"
    by (simp add: s)
  have F: "fault_in ?n fs \<Longrightarrow> \<not> no_faults (faults s)"
    using no_faults_fault_in [of fs ?n] by (auto simp: s)
  have app: "appended (vec s) x (vec ?s1)"
    using appended_shape [of xs k x ?K] by (simp add: s)
  have sz: "length xs = Size (vec s)"
    by (simp add: s Size_def)
  have ix: "index (vec ?s1) (length xs) = Some x"
    using app by (simp add: appended_def s Size_def)
  have eb: "(fault_in ?n fs \<longrightarrow> (\<exists>s'. EmplaceBack et a s = Thrown s')) \<and>
            (\<not> fault_in ?n fs \<longrightarrow> EmplaceBack et a s = Returned (length xs) ?s1)"
    using Emplace_cases [of "length xs" xs k a x et fs rel] a
    by (simp add: EmplaceBack_def s)
  have pb: "(fault_in ?n fs \<longrightarrow> (\<exists>s'. PushBack et a s = Thrown s')) \<and>
            (\<not> fault_in ?n fs \<longrightarrow> PushBack et a s = Returned () ?s1)"
    using eb by (cases "fault_in ?n fs") (auto simp: PushBack_def)
  have eb0: "(fault_in ?n fs \<longrightarrow> (\<exists>s'. EmplaceBack_0 et a s = Thrown s')) \<and>
             (\<not> fault_in ?n fs \<longrightarrow> EmplaceBack_0 et a s = Returned (length xs) ?s1)"
    using EmplaceBack_0_cases [OF a, of et fs rel] by (simp add: s)
  show ?thesis
  proof (intro conjI)
    show "appends (PushBack et a s) s x"
      using pb F app by (rule appends_from_cases)
    show "appends (EmplaceBack et a s) s x"
      using eb F app by (rule appends_from_cases)
    show "refers_to_new (EmplaceBack et a s) s x"
      using eb sz ix by (rule refers_from_cases)
    show "appends (EmplaceBack_0 et a s) s x"
      using eb0 F app by (rule appends_from_cases)
    show "refers_to_new (EmplaceBack_0 et a s) s x"
      using eb0 sz ix by (rule refers_from_cases)
  qed
qed

text \<open>
  What the \<open>PushBack\<close> of src/unnamed/part_000 appends, on every input: the value \<open>x\<close> of its
  argument when there is room, and otherwise what the argument holds after the transfer of
  the old elements. This is \<open>x\<close> whenever the argument is not an element of the sequence,
  the elements are transferred by copy, or a moved-from element keeps its value.
\<close>

lemma PushBack_0_appends:
  assumes "invar (vec s)" and "arg_value (m_data (vec s)) a = Some x"
  shows "appends (PushBack_0 et a s) s
           (if Size (vec s) < Capacity (vec s) then x else read_after_transfer et a x)"
proof -
  from assms(1) obtain xs k fs rel where
    s: "s = \<lparr>vec = \<lparr>m_data = map Some xs @ replicate k None, m_size = length xs\<rparr>,
             faults = fs, released = rel\<rparr>"
    by (rule invar_stateE)
  let ?n = "emplace_steps et (length xs) (length xs + k) (length xs)"
  let ?K = "(if k = 0 then new_capacity_for (length xs) else length xs + k) - Suc (length xs)"
  let ?y = "if Size (vec s) < Capacity (vec s) then x else read_after_transfer et a x"
  let ?s1 = "\<lparr>vec = \<lparr>m_data = map Some (xs @ [?y]) @ replicate ?K None, m_size = Suc (length xs)\<rparr>,
              faults = drop ?n fs,
              released = (if k = 0 then rel @ [replicate (length xs) None] else rel)\<rparr>"
  from assms(2) have a: "arg_value (map Some xs @ replicate k None) a = Some x"
    by (simp add: s)
  have y: "?y = (if k = 0 then read_after_transfer et a x else x)"
    by (simp add: s Size_def Capacity_def)
  have F: "fault_in ?n fs \<Longrightarrow> \<not> no_faults (faults s)"
    using no_faults_fault_in [of fs ?n] by (auto simp: s)
  have app: "appended (vec s) ?y (vec ?s1)"
    using appended_shape [of xs k ?y ?K] by (simp add: s)
  have pb0: "(fault_in ?n fs \<longrightarrow> (\<exists>s'. PushBack_0 et a s = Thrown s')) \<and>
             (\<not> fault_in ?n fs \<longrightarrow> PushBack_0 et a s = Returned () ?s1)"
    using PushBack_0_cases [OF a y, of fs rel] by (simp add: s)
  show ?thesis
    using pb0 F app by (rule appends_from_cases)
qed

lemma PushBack_0_appends_value:
  assumes "invar (vec s)" and "arg_value (m_data (vec s)) a = Some x"
    and "a = External x \<or> Size (vec s) < Capacity (vec s) \<or> transfer_ctor et = CopyCtor \<or>
         moved_from et x = x"
  shows "appends (PushBack_0 et a s) s x"
proof -
  from assms(2,3) have "(if Size (vec s) < Capacity (vec s) then x else read_after_transfer et a x) = x"
    by (cases a) (auto simp: read_after_transfer_def source_after_def arg_value_def split: ctor.splits)
  with PushBack_0_appends [OF assms(1,2), of et] show ?thesis
    by simp
qed

text \<open>The two versions of \<open>PushBack\<close> and \<open>EmplaceBack\<close> on a sequence with room.\<close>

lemma PushBack_example:
  "invar two_of_three \<and>
   PushBack trivial_type (External 7) \<lparr>vec = two_of_three, faults = [], released = []\<rparr> =
   Returned () \<lparr>vec = \<lparr>m_data = [Some 1, Some 2, Some 7], m_size = 3\<rparr>, faults = [], released = []\<rparr> \<and>
   PushBack_0 trivial_type (External 7) \<lparr>vec = two_of_three, faults = [], released = []\<rparr> =
   Returned () \<lparr>vec = \<lparr>m_data = [Some 1, Some 2, Some 7], m_size = 3\<rparr>, faults = [], released = []\<rparr> \<and>
   EmplaceBack trivial_type (External 7) \<lparr>vec = two_of_three, faults = [], released = []\<rparr> =
   Returned 2 \<lparr>vec = \<lparr>m_data = [Some 1, Some 2, Some 7], m_size = 3\<rparr>, faults = [], released = []\<rparr> \<and>
   appended two_of_three 7 \<lparr>m_data = [Some 1, Some 2, Some 7], m_size = 3\<rparr>"
  by code_simp

section \<open>The invariant under the other operations\<close>

text \<open>
  Whenever they return, the constructors, \<open>Swap\<close>, both assignments and both versions of
  \<open>Resize\<close> leave sequences that satisfy the invariant, with the elements one expects.
\<close>

lemma value_construct_shape:
  assumes "m \<le> k"
  shows "uninitialized_value_construct_n et (map Some xs @ replicate k None) (length xs) m fs =
         (if fault_in m fs
          then Thrown (map Some xs @ replicate k None, drop (Suc (first_fault fs)) fs)
          else Returned () (map Some (xs @ replicate m (value_initialized et)) @ replicate (k - m) None,
                            drop m fs))"
proof -
  have k: "replicate k None = replicate m None @ replicate (k - m) (None :: 'a slot)"
    using assms by (simp add: replicate_add [symmetric])
  have "value_construct_loop et (length (map Some xs)) (length (map Some xs) + length ([] :: 'a list)) m
          (map Some xs @ map Some [] @ replicate m None @ replicate (k - m) None, fs) =
        (if fault_in m fs
         then Thrown (map Some xs @ replicate (length ([] :: 'a list) + m) None @ replicate (k - m) None,
                      drop (Suc (first_fault fs)) fs)
         else Returned () (map Some xs @ map Some ([] @ replicate m (value_initialized et)) @
                           replicate (k - m) None, drop m fs))"
    by (rule value_construct_loop_eq)
  then show ?thesis
    unfolding uninitialized_value_construct_n_def by (subst (1 2) k) simp
qed

lemma Swap_invar: "invar a \<Longrightarrow> invar b \<Longrightarrow> invar (fst (Swap (a, b))) \<and> invar (snd (Swap (a, b)))"
  by (simp add: Swap_def invar_def)

lemma move_assign_invar:
  "invar a \<Longrightarrow> invar b \<Longrightarrow> invar (fst (move_assign sa (a, b))) \<and> invar (snd (move_assign sa (a, b)))"
  by (simp add: move_assign_def Swap_def invar_def)

lemma Vector_default_invar: "invar Vector_default \<and> elems Vector_default = [] \<and> Capacity Vector_default = 0"
  by (simp add: Vector_default_def invar_def elems_def Capacity_def)

lemma Vector_sized_result:
  assumes "Vector_sized et n w = Returned v w'"
  shows "invar v \<and> elems v = replicate n (value_initialized et) \<and> Capacity v = n"
proof (cases "n = 0")
  case True
  with assms show ?thesis
    by (auto simp: Vector_sized_def RawMemory_new_def uninitialized_value_construct_n_def
        invar_def elems_def Capacity_def)
next
  case False
  have vc: "uninitialized_value_construct_n et (replicate n None) 0 n fs =
         (if fault_in n fs then Thrown (replicate n None, drop (Suc (first_fault fs)) fs)
          else Returned () (map Some (replicate n (value_initialized et)), drop n fs))" for fs
    using value_construct_shape [of n n et "[]" fs] by simp
  from assms have "v = \<lparr>m_data = map Some (replicate n (value_initialized et)) @ replicate 0 None,
                         m_size = length (replicate n (value_initialized et))\<rparr>"
    using False by (auto simp: Vector_sized_def RawMemory_new_def vc split: if_splits)
  then show ?thesis
    using shape_facts [of "replicate n (value_initialized et)" 0] by simp
qed

lemma copy_all:
  "uninitialized_copy_n et (map Some xs @ ss) 0 (length xs) (replicate (length xs) None) 0 fs =
   (if fault_in (length xs) fs
    then Thrown (map Some xs @ ss, replicate (length xs) None, drop (Suc (first_fault fs)) fs)
    else Returned () (map Some xs @ ss, map Some xs, drop (length xs) fs))"
proof -
  have "uninitialized_loop et CopyCtor (length ([] :: 'a slot list)) (length xs)
          (length ([] :: 'a slot list)) (length ([] :: 'a slot list) + length ([] :: 'a list))
          ([] @ map Some xs @ ss, [] @ map Some [] @ replicate (length xs) None @ [], fs) =
        (if may_throw et CopyCtor \<and> fault_in (length xs) fs
         then Thrown ([] @ map Some (map (source_after et CopyCtor) (take (first_fault fs) xs) @
                                      drop (first_fault fs) xs) @ ss,
                      [] @ replicate (length ([] :: 'a list) + length xs) None @ [],
                      drop (Suc (first_fault fs)) fs)
         else Returned () ([] @ map Some (map (source_after et CopyCtor) xs) @ ss,
                           [] @ map Some ([] @ xs) @ [],
                           if may_throw et CopyCtor then drop (length xs) fs else fs))"
    by (rule uninitialized_loop_eq)
  then show ?thesis
    by (simp add: uninitialized_copy_n_def source_after_copy may_throw_def)
qed

lemma Vector_copy_result:
  assumes "invar other" and "Vector_copy et other w = Returned v w'"
  shows "invar v \<and> elems v = elems other \<and> Capacity v = Size other"
proof -
  from assms(1) obtain xs k where
    o: "other = \<lparr>m_data = map Some xs @ replicate k None, m_size = length xs\<rparr>"
    by (rule invar_vectorE)
  show ?thesis
  proof (cases "length xs = 0")
    case True
    with assms(2) show ?thesis
      by (auto simp: o Vector_copy_def RawMemory_new_def uninitialized_copy_n_def
          invar_def elems_def Capacity_def Size_def)
  next
    case False
    from assms(2) have "v = \<lparr>m_data = map Some xs @ replicate 0 None, m_size = length xs\<rparr>"
      using False
      by (auto simp: o Vector_copy_def RawMemory_new_def copy_all split: if_splits)
    then show ?thesis
      using shape_facts [of xs 0] shape_facts [of xs k] by (simp add: o)
  qed
qed

lemma grow_in_place:
  assumes "length xs < m" and "m \<le> length xs + k"
  shows "uninitialized_value_construct_n et (map Some xs @ replicate k None) (length xs) (m - length xs) fs =
         (if fault_in (m - length xs) fs
          then Thrown (map Some xs @ replicate k None, drop (Suc (first_fault fs)) fs)
          else Returned () (map Some (xs @ replicate (m - length xs) (value_initialized et)) @
                            replicate (length xs + k - m) None, drop (m - length xs) fs))"
proof -
  have "k - (m - length xs) = length xs + k - m" and "m - length xs \<le> k"
    using assms by simp_all
  then show ?thesis
    using value_construct_shape [of "m - length xs" k et xs fs] by simp
qed

lemma Resize_explicit:
  assumes "Resize et m \<lparr>vec = \<lparr>m_data = map Some xs @ replicate k None, m_size = length xs\<rparr>,
                         faults = fs, released = rel\<rparr> = Returned () s' \<or>
           Resize_0 et m \<lparr>vec = \<lparr>m_data = map Some xs @ replicate k None, m_size = length xs\<rparr>,
                         faults = fs, released = rel\<rparr> = Returned () s'"
  shows "\<exists>K. vec s' = \<lparr>m_data = map Some (take m xs @ replicate (m - length xs) (value_initialized et)) @
                                 replicate K None,
                        m_size = m\<rparr> \<and> length xs + k \<le> m + K"
proof -
  let ?S = "\<lparr>vec = \<lparr>m_data = map Some xs @ replicate k None, m_size = length xs\<rparr>,
             faults = fs, released = rel\<rparr>"
  consider (shrink) "m \<le> length xs" | (room) "length xs < m" "m \<le> length xs + k"
    | (grow) "length xs + k < m"
    by linarith
  then show ?thesis
  proof cases
    case shrink
    from assms have "vec s' = \<lparr>m_data = map Some (take m xs) @ replicate (length xs - m + k) None,
                              m_size = m\<rparr>"
      using shrink
      by (cases "m = length xs")
        (auto simp: Resize_def Resize_0_def Capacity_def destroy_tail [OF shrink] Let_def
          simp del: destroy_n.simps(2))
    with shrink show ?thesis by auto
  next
    case room
    from assms have "vec s' = \<lparr>m_data = map Some (xs @ replicate (m - length xs) (value_initialized et)) @
                                      replicate (length xs + k - m) None, m_size = m\<rparr>"
      using room
      by (auto simp: Resize_def Resize_0_def Capacity_def Reserve_noop grow_in_place Let_def
          split: if_splits)
    with room show ?thesis by auto
  next
    case grow
    have g: "uninitialized_value_construct_n et (map Some xs @ replicate (m - length xs) None)
               (length xs) (m - length xs) fs' =
         (if fault_in (m - length xs) fs'
          then Thrown (map Some xs @ replicate (m - length xs) None, drop (Suc (first_fault fs')) fs')
          else Returned () (map Some (xs @ replicate (m - length xs) (value_initialized et)) @
                            replicate 0 None, drop (m - length xs) fs'))" for fs'
      using value_construct_shape [of "m - length xs" "m - length xs" et xs fs'] by simp
    from assms have "vec s' = \<lparr>m_data = map Some (xs @ replicate (m - length xs) (value_initialized et)) @
                                      replicate 0 None, m_size = m\<rparr>"
      using grow
      by (auto simp: Resize_def Resize_0_def Capacity_def Reserve_eq [OF grow] g Let_def
          simp del: replicate.simps split: if_splits)
    with grow show ?thesis by auto
  qed
qed

lemma Resize_result:
  assumes "invar (vec s)"
    and "Resize et m s = Returned () s' \<or> Resize_0 et m s = Returned () s'"
  shows "invar (vec s') \<and> Size (vec s') = m \<and> Capacity (vec s) \<le> Capacity (vec s') \<and>
         elems (vec s') = take m (elems (vec s)) @ replicate (m - Size (vec s)) (value_initialized et)"
proof -
  from assms(1) obtain xs k fs rel where
    s: "s = \<lparr>vec = \<lparr>m_data = map Some xs @ replicate k None, m_size = length xs\<rparr>,
             faults = fs, released = rel\<rparr>"
    by (rule invar_stateE)
  let ?L = "take m xs @ replicate (m - length xs) (value_initialized et)"
  from Resize_explicit [OF assms(2) [unfolded s]] obtain K where
    v': "vec s' = \<lparr>m_data = map Some ?L @ replicate K None, m_size = m\<rparr>"
    and K: "length xs + k \<le> m + K"
    by blast
  have len: "length ?L = m"
    by simp
  have "invar (vec s')" "elems (vec s') = ?L" "Capacity (vec s') = length ?L + K"
    by (rule invar_of_shape [where xs = ?L and k = K]; simp add: v')+
  moreover have "elems (vec s) = xs" "Capacity (vec s) = length xs + k" "Size (vec s) = length xs"
    unfolding s by (simp_all add: shape_facts)
  ultimately show ?thesis
    using K by (simp add: v' Size_def)
qed

lemma uninitialized_copy_n_cases:
  assumes "src = sp @ map Some xs @ ss" and "dst = dp @ replicate (length xs) None @ ds"
    and "first = length sp" and "count = length xs" and "d_first = length dp"
  shows "uninitialized_copy_n et src first count dst d_first fs =
   (if fault_in (length xs) fs then Thrown (src, dst, drop (Suc (first_fault fs)) fs)
    else Returned () (src, dp @ map Some xs @ ds, drop (length xs) fs))"
proof -
  have "uninitialized_copy_n et src first count dst d_first fs =
        uninitialized_loop et CopyCtor (length sp) (length xs) (length dp)
          (length dp + length ([] :: 'a list))
          (sp @ map Some xs @ ss, dp @ map Some [] @ replicate (length xs) None @ ds, fs)"
    by (simp add: assms uninitialized_copy_n_def)
  then show ?thesis
    unfolding uninitialized_loop_eq
    by (simp add: assms source_after_copy may_throw_def)
qed

lemma copy_assign_explicit:
  assumes "copy_assign et False \<lparr>m_data = map Some ys @ replicate j None, m_size = length ys\<rparr>
             \<lparr>vec = \<lparr>m_data = map Some xs @ replicate k None, m_size = length xs\<rparr>,
              faults = fs, released = rel\<rparr> = Returned () s'"
  shows "\<exists>K. vec s' = \<lparr>m_data = map Some ys @ replicate K None, m_size = length ys\<rparr>"
proof -
  let ?o = "\<lparr>m_data = map Some ys @ replicate j None, m_size = length ys\<rparr>"
  let ?v = "\<lparr>m_data = map Some xs @ replicate k None, m_size = length xs\<rparr>"
  consider (realloc) "length xs + k < length ys"
    | (more) "length ys \<le> length xs + k" "length xs < length ys"
    | (less) "length ys \<le> length xs"
    by linarith
  then show ?thesis
  proof cases
    case realloc
    have inv: "invar ?o"
      by (rule shape_facts)
    from assms realloc obtain temp fs1 rel1 where
      t: "Vector_copy et ?o (fs, rel) = Returned temp (fs1, rel1)"
      and v': "vec s' = \<lparr>m_data = m_data temp, m_size = m_size temp\<rparr>"
      by (auto simp: copy_assign_def Capacity_def Swap_def
          split: outcome.splits prod.splits option.splits)
    from Vector_copy_result [OF inv t] have "invar temp" and "elems temp = ys"
      by (simp_all add: shape_facts)
    then obtain zs K where temp: "temp = \<lparr>m_data = map Some zs @ replicate K None, m_size = length zs\<rparr>"
      and "elems temp = ys"
      by (metis invar_vectorE)
    then have "zs = ys"
      by (simp add: shape_facts)
    with v' temp show ?thesis by auto
  next
    case more
    let ?n = "length xs"
    have mn: "min ?n (length ys) = ?n"
      using more by simp
    have c: "copy_n (map Some ys @ replicate j None) 0 ?n 0 (map Some xs @ replicate k None, fs) =
       (if fault_in ?n fs
        then Thrown (map Some (take (first_fault fs) (take ?n ys) @ drop (first_fault fs) xs) @
                       replicate k None, drop (Suc (first_fault fs)) fs)
        else Returned () (map Some (take ?n ys) @ replicate k None, drop ?n fs))"
      using copy_n_eq [of xs "take ?n ys" "[]" "map Some (drop ?n ys) @ replicate j None" "[]"
          "replicate k None" fs] more map_Some_split [of ys ?n]
      by simp
    let ?K = "k - (length ys - ?n)"
    have u: "uninitialized_copy_n et (map Some ys @ replicate j None) ?n (length ys - ?n)
               (map Some (take ?n ys) @ replicate k None) ?n fs' =
       (if fault_in (length (drop ?n ys)) fs'
        then Thrown (map Some ys @ replicate j None, map Some (take ?n ys) @ replicate k None,
                     drop (Suc (first_fault fs')) fs')
        else Returned () (map Some ys @ replicate j None,
                          map Some (take ?n ys) @ map Some (drop ?n ys) @ replicate ?K None,
                          drop (length (drop ?n ys)) fs'))" for fs'
    proof (rule uninitialized_copy_n_cases [where sp = "map Some (take ?n ys)" and ss = "replicate j None"])
      show "map Some ys @ replicate j None =
            map Some (take ?n ys) @ map Some (drop ?n ys) @ replicate j None"
        using map_Some_split [of ys ?n] by simp
      show "map Some (take ?n ys) @ replicate k None =
            map Some (take ?n ys) @ replicate (length (drop ?n ys)) None @ replicate ?K None"
        using more by (simp add: replicate_add [symmetric])
    qed (use more in simp_all)
    from assms have "vec s' = \<lparr>m_data = map Some (take ?n ys) @ map Some (drop ?n ys) @ replicate ?K None,
                              m_size = length ys\<rparr>"
      using more
      by (auto simp: copy_assign_def Capacity_def Let_def mn c u split: if_splits)
    moreover have "map Some (take ?n ys) @ map Some (drop ?n ys) @ replicate ?K None =
                   map Some ys @ replicate ?K None"
      by (metis append_assoc map_Some_split)
    ultimately show ?thesis by auto
  next
    case less
    let ?m = "length ys"
    have mn: "min (length xs) ?m = ?m"
      using less by simp
    have c: "copy_n (map Some ys @ replicate j None) 0 ?m 0 (map Some xs @ replicate k None, fs) =
       (if fault_in ?m fs
        then Thrown (map Some (take (first_fault fs) ys @ drop (first_fault fs) (take ?m xs)) @
                       map Some (drop ?m xs) @ replicate k None, drop (Suc (first_fault fs)) fs)
        else Returned () (map Some ys @ map Some (drop ?m xs) @ replicate k None, drop ?m fs))"
      using copy_n_eq [of "take ?m xs" ys "[]" "replicate j None" "[]"
          "map Some (drop ?m xs) @ replicate k None" fs] less map_Some_split [of xs ?m]
      by simp
    have d: "destroy_n (map Some ys @ map Some (drop ?m xs) @ replicate k None) ?m (length xs - ?m) =
             Some (map Some ys @ replicate (length xs - ?m + k) None)"
      using destroy_n_live [of "map Some ys" "drop ?m xs" "replicate k None"]
      by (simp add: replicate_add)
    from assms have "vec s' = \<lparr>m_data = map Some ys @ replicate (length xs - ?m + k) None,
                              m_size = length ys\<rparr>"
      using less
      by (auto simp: copy_assign_def Capacity_def Let_def mn c d
          simp del: destroy_n.simps split: if_splits)
    then show ?thesis by auto
  qed
qed

lemma copy_assign_result:
  assumes "invar (vec s)" and "invar other" and "copy_assign et self_assignment other s = Returned () s'"
  shows "invar (vec s') \<and> (if self_assignment then s' = s else elems (vec s') = elems other)"
proof (cases self_assignment)
  case True
  with assms show ?thesis
    by (simp add: copy_assign_def)
next
  case False
  from assms(1) obtain xs k fs rel where
    s: "s = \<lparr>vec = \<lparr>m_data = map Some xs @ replicate k None, m_size = length xs\<rparr>,
             faults = fs, released = rel\<rparr>"
    by (rule invar_stateE)
  from assms(2) obtain ys j where
    o: "other = \<lparr>m_data = map Some ys @ replicate j None, m_size = length ys\<rparr>"
    by (rule invar_vectorE)
  from assms(3) False copy_assign_explicit [of et ys j xs k fs rel s'] obtain K where
    "vec s' = \<lparr>m_data = map Some ys @ replicate K None, m_size = length ys\<rparr>"
    by (auto simp: s o)
  with False show ?thesis
    by (simp add: shape_facts o)
qed

section \<open>Two exceptional exits\<close>

text \<open>
  When \<open>Emplace\<close> inserts in place before the end and a move assignment of the shift throws,
  the element already constructed in the slot at \<open>end()\<close> stays live behind the size, which
  has not been incremented.
\<close>

lemma in_place_Emplace_exception:
  "Emplace copying_type 0 (External 9) \<lparr>vec = two_of_three, faults = [False, False, True], released = []\<rparr> =
   Thrown \<lparr>vec = \<lparr>m_data = [Some 1, Some 0, Some 2], m_size = 2\<rparr>, faults = [], released = []\<rparr> \<and>
   \<not> invar \<lparr>m_data = [Some 1, Some 0, Some 2 :: nat slot], m_size = 2\<rparr>"
  by code_simp

text \<open>
  When the constructor of the new element throws in \<open>ReallocateAndPush\<close>, the new block is
  released with the transferred elements still live in it.
\<close>

lemma ReallocateAndPush_exception:
  "PushBack_0 copying_type (External 9) \<lparr>vec = full_pair, faults = [False, False, False, True], released = []\<rparr> =
   Thrown \<lparr>vec = full_pair, faults = [], released = [[Some 1, Some 2, None, None]]\<rparr> \<and>
   \<not> all_uninitialized [Some 1, Some 2, None, None :: nat slot]"
  by code_simp

end
